theory Spec2Isabelle
  imports Main "HOL-Library.Sublist"
begin

section \<open>Values, errors and strings\<close>

text \<open>
  The JSON values that reach the aggregator: \<open>null\<close>, strings and objects. An object is
  an association list; a lookup takes the first binding of a key. Numbers, booleans and
  arrays do not occur in the fields the modelled functions read.
\<close>

datatype pyval = PNone | PStr string | PDict "(string \<times> pyval) list"

datatype py_error = KeyError string | TypeError | AttributeError

text \<open>\<open>v[k]\<close>: only an object can be indexed by a string key.\<close>

definition getitem :: "pyval \<Rightarrow> string \<Rightarrow> py_error + pyval" where
  "getitem v k =
     (case v of
        PDict d \<Rightarrow> (case map_of d k of None \<Rightarrow> Inl (KeyError k) | Some x \<Rightarrow> Inr x)
      | _ \<Rightarrow> Inl TypeError)"

text \<open>\<open>d.get(k, default)\<close> on an object.\<close>

definition get_default :: "(string \<times> pyval) list \<Rightarrow> string \<Rightarrow> pyval \<Rightarrow> pyval" where
  "get_default d k dflt = (case map_of d k of None \<Rightarrow> dflt | Some x \<Rightarrow> x)"

text \<open>A value can be a dictionary key unless it is itself a dictionary.\<close>

definition hashable :: "pyval \<Rightarrow> bool" where
  "hashable v = (case v of PDict d \<Rightarrow> False | _ \<Rightarrow> True)"

text \<open>\<open>tag in s\<close> on two strings: \<open>tag\<close> occurs in \<open>s\<close> as a contiguous substring.\<close>

definition str_in :: "string \<Rightarrow> string \<Rightarrow> bool" where
  "str_in tag s = sublist tag s"

section \<open>The result aggregator\<close>

text \<open>
  A repository record is the dictionary \<open>repo_info\<close> of \<open>_add_repository\<close>. The two scopes
  \<open>repos\<close> and \<open>current_search_repos\<close> map a repository name to a reference into a store of
  records, because \<open>_add_repository\<close> puts the same dictionary object into both scopes and
  later updates it in place.
\<close>

record repo_info =
  url :: pyval
  description :: pyval
  found_by :: string

type_synonym ref = nat

record searcher =
  repos :: "pyval \<Rightarrow> ref option"
  current_search_repos :: "pyval \<Rightarrow> ref option"
  store :: "ref \<Rightarrow> repo_info option"
  next_ref :: ref

definition init_searcher :: searcher where
  "init_searcher =
     \<lparr>repos = Map.empty, current_search_repos = Map.empty, store = Map.empty, next_ref = 0\<rparr>"

definition global_record :: "searcher \<Rightarrow> pyval \<Rightarrow> repo_info option" where
  "global_record s name = (case repos s name of None \<Rightarrow> None | Some a \<Rightarrow> store s a)"

definition batch_record :: "searcher \<Rightarrow> pyval \<Rightarrow> repo_info option" where
  "batch_record s name =
     (case current_search_repos s name of None \<Rightarrow> None | Some a \<Rightarrow> store s a)"

text \<open>
  The value of \<open>found_by\<close> after
  \<open>if tag not in rec['found_by']: rec['found_by'] += f", {tag}"\<close>.
\<close>

definition merge_found_by :: "string \<Rightarrow> string \<Rightarrow> string" where
  "merge_found_by fb tag = (if str_in tag fb then fb else fb @ '', '' @ tag)"

text \<open>The same statement on the record that a reference points to.\<close>

definition append_found_by :: "ref \<Rightarrow> string \<Rightarrow> (ref \<Rightarrow> repo_info option) \<Rightarrow> (ref \<Rightarrow> repo_info option)" where
  "append_found_by a tag h =
     (case h a of
        None \<Rightarrow> h
      | Some r \<Rightarrow> h(a \<mapsto> r\<lparr>found_by := merge_found_by (found_by r) tag\<rparr>))"

text \<open>Lines 88 to 93 of \<open>_add_repository\<close>: code search items nest the repository.\<close>

definition select_repo :: "pyval \<Rightarrow> py_error + pyval" where
  "select_repo repo_data =
     (case repo_data of
        PDict d \<Rightarrow> (case map_of d ''repository'' of None \<Rightarrow> Inr repo_data | Some r \<Rightarrow> Inr r)
      | _ \<Rightarrow> Inl TypeError)"

text \<open>Lines 95 to 100: the name and the new record built from the repository object.\<close>

definition build_repo_info :: "pyval \<Rightarrow> string \<Rightarrow> py_error + (pyval \<times> repo_info)" where
  "build_repo_info repo tag =
     (case getitem repo ''full_name'' of
        Inl e \<Rightarrow> Inl e
      | Inr repo_name \<Rightarrow>
          (case getitem repo ''html_url'' of
             Inl e \<Rightarrow> Inl e
           | Inr u \<Rightarrow>
               (case repo of
                  PDict d \<Rightarrow>
                    Inr (repo_name,
                         \<lparr>url = u,
                          description = get_default d ''description'' (PStr ''No description''),
                          found_by = tag\<rparr>)
                | _ \<Rightarrow> Inl TypeError)))"

text \<open>
  Lines 102 to 115: the new record is one object, allocated at \<open>next_ref\<close>; a scope that
  lacks the name stores a reference to it, a scope that has the name updates \<open>found_by\<close>
  of the record it already holds.
\<close>

definition merge_scope_current :: "pyval \<Rightarrow> ref \<Rightarrow> string \<Rightarrow> searcher \<Rightarrow> searcher" where
  "merge_scope_current name a tag s =
     (case current_search_repos s name of
        None \<Rightarrow> s\<lparr>current_search_repos := (current_search_repos s)(name \<mapsto> a)\<rparr>
      | Some b \<Rightarrow> s\<lparr>store := append_found_by b tag (store s)\<rparr>)"

definition merge_scope_all :: "pyval \<Rightarrow> ref \<Rightarrow> string \<Rightarrow> searcher \<Rightarrow> searcher" where
  "merge_scope_all name a tag s =
     (case repos s name of
        None \<Rightarrow> s\<lparr>repos := (repos s)(name \<mapsto> a)\<rparr>
      | Some b \<Rightarrow> s\<lparr>store := append_found_by b tag (store s)\<rparr>)"

definition merge_record :: "pyval \<Rightarrow> repo_info \<Rightarrow> bool \<Rightarrow> searcher \<Rightarrow> searcher" where
  "merge_record name info is_current_search s =
     (let a = next_ref s;
          s1 = s\<lparr>store := (store s)(a \<mapsto> info), next_ref := Suc a\<rparr>;
          s2 = (if is_current_search then merge_scope_current name a (found_by info) s1 else s1)
      in merge_scope_all name a (found_by info) s2)"

definition add_repository :: "pyval \<Rightarrow> string \<Rightarrow> bool \<Rightarrow> searcher \<Rightarrow> py_error + searcher" where
  "add_repository repo_data tag is_current_search s =
     (case select_repo repo_data of
        Inl e \<Rightarrow> Inl e
      | Inr repo \<Rightarrow>
          (case build_repo_info repo tag of
             Inl e \<Rightarrow> Inl e
           | Inr (name, info) \<Rightarrow>
               if hashable name then Inr (merge_record name info is_current_search s)
               else Inl TypeError))"

text \<open>\<open>self.current_search_repos.clear()\<close>, as \<open>main\<close> calls it after each pass.\<close>

definition clear_current :: "searcher \<Rightarrow> searcher" where
  "clear_current s = s\<lparr>current_search_repos := Map.empty\<rparr>"

text \<open>
  A run is a sequence of merges and batch clears from the empty searcher; an exception
  of a merge ends the run.
\<close>

datatype op = Add pyval string bool | Clear

fun step :: "op \<Rightarrow> searcher \<Rightarrow> py_error + searcher" where
  "step (Add repo_data tag is_current_search) s = add_repository repo_data tag is_current_search s"
| "step Clear s = Inr (clear_current s)"

fun run :: "op list \<Rightarrow> searcher \<Rightarrow> py_error + searcher" where
  "run [] s = Inr s"
| "run (x # xs) s = (case step x s of Inl e \<Rightarrow> Inl e | Inr s' \<Rightarrow> run xs s')"

text \<open>A repository object as the search API returns it.\<close>

definition repo_obj :: "string \<Rightarrow> string \<Rightarrow> string \<Rightarrow> pyval" where
  "repo_obj name u d =
     PDict [(''full_name'', PStr name), (''html_url'', PStr u), (''description'', PStr d)]"

text \<open>The name under which \<open>_add_repository\<close> files an item (line 95), if it has one.\<close>

definition repo_name_of :: "pyval \<Rightarrow> pyval option" where
  "repo_name_of repo_data =
     (case select_repo repo_data of
        Inl e \<Rightarrow> None
      | Inr repo \<Rightarrow> (case getitem repo ''full_name'' of Inl e \<Rightarrow> None | Inr n \<Rightarrow> Some n))"

text \<open>What a run leaves under a name: the batch record and the global record.\<close>

definition records_after :: "op list \<Rightarrow> pyval \<Rightarrow> py_error + (repo_info option \<times> repo_info option)" where
  "records_after ops name =
     (case run ops init_searcher of
        Inl e \<Rightarrow> Inl e
      | Inr s \<Rightarrow> Inr (batch_record s name, global_record s name))"

text \<open>
  The shape of every state a run reaches: references point below \<open>next_ref\<close> at stored
  records, a record is shared by one name only, and a name of the batch scope is a name
  of the global scope.
\<close>

definition wf :: "searcher \<Rightarrow> bool" where
  "wf s \<longleftrightarrow>
     (\<forall>n a. repos s n = Some a \<longrightarrow> a < next_ref s \<and> store s a \<noteq> None) \<and>
     (\<forall>n a. current_search_repos s n = Some a \<longrightarrow> a < next_ref s \<and> store s a \<noteq> None) \<and>
     (\<forall>n m a. (repos s n = Some a \<or> current_search_repos s n = Some a) \<longrightarrow>
              (repos s m = Some a \<or> current_search_repos s m = Some a) \<longrightarrow> n = m) \<and>
     (\<forall>n. current_search_repos s n \<noteq> None \<longrightarrow> repos s n \<noteq> None)"

text \<open>The store after the batch half of \<open>merge_record\<close>.\<close>

definition store1 :: "pyval \<Rightarrow> repo_info \<Rightarrow> bool \<Rightarrow> searcher \<Rightarrow> ref \<Rightarrow> repo_info option" where
  "store1 n info cur s =
     (case (if cur then current_search_repos s n else None) of
        None \<Rightarrow> (store s)(next_ref s \<mapsto> info)
      | Some b \<Rightarrow> append_found_by b (found_by info) ((store s)(next_ref s \<mapsto> info)))"

section \<open>Provenance tags\<close>

text \<open>
  \<open>s.split(sep)\<close> for a non-empty separator: the string is cut at each occurrence of
  \<open>sep\<close>, found from left to right; \<open>acc\<close> holds the piece read so far. Both separators used
  in the repository, \<open>", "\<close> and \<open>"/"\<close>, are non-empty.
\<close>

fun split_acc :: "string \<Rightarrow> string \<Rightarrow> string \<Rightarrow> string list" where
  "split_acc sep acc [] = [acc]"
| "split_acc sep acc (c # cs) =
     (if sep \<noteq> [] \<and> prefix sep (c # cs)
      then acc # split_acc sep [] (drop (length sep) (c # cs))
      else split_acc sep (acc @ [c]) cs)"

definition str_split :: "string \<Rightarrow> string \<Rightarrow> string list" where
  "str_split s sep = split_acc sep [] s"

text \<open>
  The provenance tags of a record are the pieces of its \<open>found_by\<close> string between
  \<open>", "\<close>: the catalog column is that joined string, and \<open>merge_csv_files.py\<close> reads it
  back with \<open>found_by.split(", ")\<close>.
\<close>

definition provenance :: "string \<Rightarrow> string list" where
  "provenance fb = str_split fb '', ''"

text \<open>
  Tags that the substring test of the merge cannot confuse: no tag has a comma or a
  leading blank, and no tag occurs inside another one.
\<close>

definition plain_tag :: "string \<Rightarrow> bool" where
  "plain_tag t \<longleftrightarrow> CHR '','' \<notin> set t \<and> \<not> prefix '' '' t"

definition separable :: "string set \<Rightarrow> bool" where
  "separable T \<longleftrightarrow> (\<forall>t \<in> T. plain_tag t) \<and> (\<forall>t \<in> T. \<forall>u \<in> T. sublist t u \<longrightarrow> t = u)"

text \<open>The tags that a run merges under a name, in order, and all tags of a run.\<close>

fun tags_applied :: "pyval \<Rightarrow> op list \<Rightarrow> string list" where
  "tags_applied name [] = []"
| "tags_applied name (Add repo_data tag is_current_search # xs) =
     (if repo_name_of repo_data = Some name then tag # tags_applied name xs
      else tags_applied name xs)"
| "tags_applied name (Clear # xs) = tags_applied name xs"

fun all_tags :: "op list \<Rightarrow> string list" where
  "all_tags [] = []"
| "all_tags (Add repo_data tag is_current_search # xs) = tag # all_tags xs"
| "all_tags (Clear # xs) = all_tags xs"

text \<open>The joined string that merging a list of tags in order builds.\<close>

fun fold_tags :: "string option \<Rightarrow> string list \<Rightarrow> string option" where
  "fold_tags fb [] = fb"
| "fold_tags None (t # ts) = fold_tags (Some t) ts"
| "fold_tags (Some fb) (t # ts) = fold_tags (Some (merge_found_by fb t)) ts"

text \<open>
  Two auxiliary notions for invariants of a run: every global record satisfies \<open>P\<close> and
  every batch record is related by \<open>R\<close> to the global record of its name; and a tag whose
  merge keeps \<open>P\<close> and \<open>R\<close>.
\<close>

definition scopes_related :: "(string \<Rightarrow> bool) \<Rightarrow> (string \<Rightarrow> string \<Rightarrow> bool) \<Rightarrow> searcher \<Rightarrow> bool" where
  "scopes_related P R s \<longleftrightarrow>
     (\<forall>n rg. global_record s n = Some rg \<longrightarrow> P (found_by rg)) \<and>
     (\<forall>n rb. batch_record s n = Some rb \<longrightarrow>
        (\<exists>rg. global_record s n = Some rg \<and> R (found_by rb) (found_by rg)))"

definition tag_closed :: "(string \<Rightarrow> bool) \<Rightarrow> (string \<Rightarrow> string \<Rightarrow> bool) \<Rightarrow> string \<Rightarrow> bool" where
  "tag_closed P R t \<longleftrightarrow>
     P t \<and> R t t \<and>
     (\<forall>g. P g \<longrightarrow> P (merge_found_by g t) \<and> R t (merge_found_by g t)) \<and>
     (\<forall>b g. R b g \<and> P g \<longrightarrow>
        R (merge_found_by b t) (merge_found_by g t) \<and> R b (merge_found_by g t))"

section \<open>The issue search adapter\<close>

text \<open>
  Lines 216 to 233 of \<open>search_issues\<close>: one item of a result page. The repository is
  named by the last two pieces of \<open>repository_url\<close> between slashes; an url with fewer than
  five pieces is reported on standard output and skipped. The second component of the
  state collects the warning lines printed (other output is not modelled).
\<close>

definition issue_repo_info :: "string \<Rightarrow> string \<Rightarrow> pyval" where
  "issue_repo_info owner repo_name =
     PDict [(''full_name'', PStr (owner @ ''/'' @ repo_name)),
            (''html_url'', PStr (''https://github.com/'' @ owner @ ''/'' @ repo_name)),
            (''description'', PStr '''')]"

definition issue_tag :: "string \<Rightarrow> string \<Rightarrow> string \<Rightarrow> string" where
  "issue_tag query start_date end_date =
     ''issue_search: '' @ query @ '' ('' @ start_date @ '' to '' @ end_date @ '')''"

definition add_issue_item ::
  "pyval \<Rightarrow> string \<Rightarrow> string \<Rightarrow> string \<Rightarrow> bool \<Rightarrow> searcher \<times> string list \<Rightarrow>
   py_error + searcher \<times> string list" where
  "add_issue_item item query start_date end_date is_current_search st =
     (case getitem item ''repository_url'' of
        Inl e \<Rightarrow> Inl e
      | Inr v \<Rightarrow>
          (case v of
             PStr repo_url \<Rightarrow>
               (let parts = str_split repo_url ''/'' in
                if length parts \<ge> 5 then
                  (case add_repository
                          (issue_repo_info (parts ! (length parts - 2)) (parts ! (length parts - 1)))
                          (issue_tag query start_date end_date) is_current_search (fst st) of
                     Inl e \<Rightarrow> Inl e
                   | Inr s' \<Rightarrow> Inr (s', snd st))
                else Inr (fst st,
                          snd st @ [''Warning: Invalid repository URL format: '' @ repo_url]))
           | _ \<Rightarrow> Inl AttributeError))"

section \<open>The other search adapters\<close>









section \<open>Time windows\<close>

text \<open>
  The window lists are local constants \<open>time_ranges\<close> of the search methods; each window is
  a pair of dates \<open>YYYY-MM-DD\<close> that goes into the query as \<open>created:start..end\<close>.
\<close>

text \<open>\<open>firebase_repo_search.py\<close>, \<open>search_issues\<close>, lines 178 to 203.\<close>

definition time_ranges_issues :: "(string \<times> string) list" where
  "time_ranges_issues =
     [(''2023-07-01'', ''2023-07-31''),
      (''2023-08-01'', ''2023-08-31''),
      (''2023-09-01'', ''2023-09-30''),
      (''2023-10-01'', ''2023-10-31''),
      (''2023-11-01'', ''2023-11-30''),
      (''2023-12-01'', ''2023-12-31''),
      (''2024-01-01'', ''2024-01-31''),
      (''2024-02-01'', ''2024-02-29''),
      (''2024-03-01'', ''2024-03-31''),
      (''2024-04-01'', ''2024-04-30''),
      (''2024-05-01'', ''2024-05-31''),
      (''2024-06-01'', ''2024-06-30''),
      (''2024-07-01'', ''2024-07-31''),
      (''2024-08-01'', ''2024-08-31''),
      (''2024-09-01'', ''2024-09-30''),
      (''2024-10-01'', ''2024-10-31''),
      (''2024-11-01'', ''2024-11-30''),
      (''2024-12-01'', ''2024-12-31''),
      (''2025-01-01'', ''2025-01-31''),
      (''2025-02-01'', ''2025-02-28''),
      (''2025-03-01'', ''2025-03-15''),
      (''2025-03-16'', ''2025-03-31''),
      (''2025-04-01'', ''2025-04-15''),
      (''2025-04-16'', ''2025-04-30'')]"

text \<open>
  \<open>firebase_repo_search.py\<close>, \<open>search_repositories_by_description\<close>, lines 242 to 267:
  the same windows, written out a second time.
\<close>

definition time_ranges_descriptions :: "(string \<times> string) list" where
  "time_ranges_descriptions =
     [(''2023-07-01'', ''2023-07-31''),
      (''2023-08-01'', ''2023-08-31''),
      (''2023-09-01'', ''2023-09-30''),
      (''2023-10-01'', ''2023-10-31''),
      (''2023-11-01'', ''2023-11-30''),
      (''2023-12-01'', ''2023-12-31''),
      (''2024-01-01'', ''2024-01-31''),
      (''2024-02-01'', ''2024-02-29''),
      (''2024-03-01'', ''2024-03-31''),
      (''2024-04-01'', ''2024-04-30''),
      (''2024-05-01'', ''2024-05-31''),
      (''2024-06-01'', ''2024-06-30''),
      (''2024-07-01'', ''2024-07-31''),
      (''2024-08-01'', ''2024-08-31''),
      (''2024-09-01'', ''2024-09-30''),
      (''2024-10-01'', ''2024-10-31''),
      (''2024-11-01'', ''2024-11-30''),
      (''2024-12-01'', ''2024-12-31''),
      (''2025-01-01'', ''2025-01-31''),
      (''2025-02-01'', ''2025-02-28''),
      (''2025-03-01'', ''2025-03-15''),
      (''2025-03-16'', ''2025-03-31''),
      (''2025-04-01'', ''2025-04-15''),
      (''2025-04-16'', ''2025-04-30'')]"

text \<open>\<open>trae_repo_search.py\<close>, \<open>search_issues\<close>, lines 178 to 181.\<close>

definition time_ranges_issues_trae :: "(string \<times> string) list" where
  "time_ranges_issues_trae =
     [(''2024-07-01'', ''2024-12-31''),
      (''2025-01-01'', ''2025-06-30'')]"

text \<open>
  \<open>windsurf_repo_search_excel.py\<close>, \<open>search_repositories_by_description\<close>, lines 134 to 143.
\<close>

definition time_ranges_descriptions_windsurf :: "(string \<times> string) list" where
  "time_ranges_descriptions_windsurf =
     [(''2024-11-01'', ''2024-11-30''),
      (''2024-12-01'', ''2024-12-31''),
      (''2025-01-01'', ''2025-01-31''),
      (''2025-02-01'', ''2025-02-28''),
      (''2025-03-01'', ''2025-03-15''),
      (''2025-03-16'', ''2025-03-31''),
      (''2025-04-01'', ''2025-04-15''),
      (''2025-04-16'', ''2025-04-30'')]"

text \<open>
  The dates are read in the Gregorian calendar: a date string is three runs of digits
  between hyphens, four for the year and two each for month and day, naming a day that
  exists; \<open>day_number\<close> counts days from 0001-01-01, which is day 1.
\<close>

definition leap_year :: "nat \<Rightarrow> bool" where
  "leap_year y \<longleftrightarrow> (y mod 4 = 0 \<and> y mod 100 \<noteq> 0) \<or> y mod 400 = 0"

definition days_in_month :: "nat \<Rightarrow> nat \<Rightarrow> nat" where
  "days_in_month y m =
     (if m = 2 then (if leap_year y then 29 else 28)
      else if m = 4 \<or> m = 6 \<or> m = 9 \<or> m = 11 then 30
      else 31)"

definition valid_date :: "nat \<times> nat \<times> nat \<Rightarrow> bool" where
  "valid_date ymd =
     (case ymd of (y, m, d) \<Rightarrow> 1 \<le> y \<and> 1 \<le> m \<and> m \<le> 12 \<and> 1 \<le> d \<and> d \<le> days_in_month y m)"

definition digit_of :: "char \<Rightarrow> nat option" where
  "digit_of c = map_of (zip ''0123456789'' [0, 1, 2, 3, 4, 5, 6, 7, 8, 9]) c"

fun digits_value :: "nat \<Rightarrow> string \<Rightarrow> nat option" where
  "digits_value n [] = Some n"
| "digits_value n (c # cs) =
     (case digit_of c of None \<Rightarrow> None | Some k \<Rightarrow> digits_value (10 * n + k) cs)"

definition parse_date :: "string \<Rightarrow> (nat \<times> nat \<times> nat) option" where
  "parse_date s =
     (case str_split s ''-'' of
        [ys, ms, ds] \<Rightarrow>
          (if length ys = 4 \<and> length ms = 2 \<and> length ds = 2 then
             (case (digits_value 0 ys, digits_value 0 ms, digits_value 0 ds) of
                (Some y, Some m, Some d) \<Rightarrow> if valid_date (y, m, d) then Some (y, m, d) else None
              | _ \<Rightarrow> None)
           else None)
      | _ \<Rightarrow> None)"

definition days_before_year :: "nat \<Rightarrow> nat" where
  "days_before_year y = 365 * (y - 1) + (y - 1) div 4 - (y - 1) div 100 + (y - 1) div 400"

definition days_before_month :: "nat \<Rightarrow> nat \<Rightarrow> nat" where
  "days_before_month y m = sum_list (map (days_in_month y) [1..<m])"

definition day_number :: "nat \<times> nat \<times> nat \<Rightarrow> nat" where
  "day_number ymd = (case ymd of (y, m, d) \<Rightarrow> days_before_year y + days_before_month y m + d)"

text \<open>
  A window as a closed interval of day numbers, and a list of windows as a list of
  intervals; \<open>None\<close> when a date does not parse.
\<close>

definition window_days :: "string \<times> string \<Rightarrow> (nat \<times> nat) option" where
  "window_days w =
     (case (parse_date (fst w), parse_date (snd w)) of
        (Some a, Some b) \<Rightarrow> Some (day_number a, day_number b)
      | _ \<Rightarrow> None)"

fun all_window_days :: "(string \<times> string) list \<Rightarrow> (nat \<times> nat) list option" where
  "all_window_days [] = Some []"
| "all_window_days (w # ws) =
     (case (window_days w, all_window_days ws) of
        (Some d, Some ds) \<Rightarrow> Some (d # ds)
      | _ \<Rightarrow> None)"

text \<open>
  Each interval is non-empty and the next one starts on the day after the previous one
  ends.
\<close>

fun contiguous :: "(nat \<times> nat) list \<Rightarrow> bool" where
  "contiguous [] = True"
| "contiguous [w] = (fst w \<le> snd w)"
| "contiguous (w # v # ws) = (fst w \<le> snd w \<and> fst v = Suc (snd w) \<and> contiguous (v # ws))"

section \<open>The request executor\<close>

text \<open>
  A response to \<open>requests.get\<close>, as \<open>_make_request\<close> tells responses apart: a success with
  the rate limit headers and the body \<open>{total_count, items}\<close>; an HTTP error status, which
  \<open>raise_for_status\<close> raises with the response's headers; any other request exception.
  A header is the number it holds, or \<open>None\<close> when the response does not have it.
\<close>

record headers =
  rate_limit_remaining :: "int option"
  rate_limit_reset :: "int option"

datatype 'a response =
    Success headers int "'a list"
  | HttpError nat headers
  | RequestError

text \<open>
  The state of one call of \<open>_make_request\<close>: its three local variables, the clock in
  seconds (\<open>int(time.time())\<close>; only \<open>time.sleep\<close> moves it), the number of requests sent,
  and the requests and sleeps so far.
\<close>

datatype event = Request nat | Sleep int

record 'a executor =
  all_items :: "'a list"
  total_count :: int
  page :: nat
  clock :: int
  calls :: nat
  trace :: "event list"

text \<open>\<open>self.max_results\<close> and \<open>self.per_page\<close>, set in \<open>__init__\<close>.\<close>

definition max_results :: int where
  "max_results = 1000"

definition per_page :: nat where
  "per_page = 100"

text \<open>\<open>int(response.headers.get(name, 0))\<close>.\<close>

definition header_or_0 :: "int option \<Rightarrow> int" where
  "header_or_0 v = (case v of None \<Rightarrow> 0 | Some n \<Rightarrow> n)"

definition sleep :: "int \<Rightarrow> 'a executor \<Rightarrow> 'a executor" where
  "sleep n st = st\<lparr>clock := clock st + n, trace := trace st @ [Sleep n]\<rparr>"

definition check_rate_limit :: "headers \<Rightarrow> 'a executor \<Rightarrow> bool \<times> 'a executor" where
  "check_rate_limit h st =
     (if header_or_0 (rate_limit_remaining h) \<le> 1
      then (True, sleep (max (header_or_0 (rate_limit_reset h) - clock st) 0 + 10) st)
      else (False, st))"

text \<open>
  One turn of the \<open>while True\<close> loop after the response has arrived: \<open>Again\<close> goes round
  once more, \<open>Stop\<close> is a \<open>break\<close>.
\<close>

datatype 'a outcome = Again "'a executor" | Stop "'a executor"

definition request_step :: "'a response \<Rightarrow> 'a executor \<Rightarrow> 'a outcome" where
  "request_step resp st =
     (case resp of
        Success h tc items \<Rightarrow>
          (case check_rate_limit h st of
             (True, st1) \<Rightarrow> Again st1
           | (False, st1) \<Rightarrow>
               (let st2 = (if page st1 = 1 then st1\<lparr>total_count := tc\<rparr> else st1) in
                if items = [] then Stop st2
                else
                  (let st3 = st2\<lparr>all_items := all_items st2 @ items\<rparr> in
                   if int (length (all_items st3)) \<ge> min (total_count st3) max_results
                   then Stop st3
                   else Again (sleep 1 (st3\<lparr>page := Suc (page st3)\<rparr>)))))
      | HttpError status h \<Rightarrow>
          if status = 403
          then Again (sleep (max (header_or_0 (rate_limit_reset h) - clock st) 0 + 10) st)
          else Stop st
      | RequestError \<Rightarrow> Stop st)"

text \<open>
  The endpoint answers a request from the number of requests it has seen in this call,
  the time and the page asked for. The loop may run forever (an endpoint that always
  answers 403, or always reports no quota left): \<open>None\<close> is a call that does not return.
\<close>

type_synonym 'a endpoint = "nat \<Rightarrow> int \<Rightarrow> nat \<Rightarrow> 'a response"

definition send :: "'a executor \<Rightarrow> 'a executor" where
  "send st = st\<lparr>calls := Suc (calls st), trace := trace st @ [Request (page st)]\<rparr>"

partial_function (option) request_loop :: "'a endpoint \<Rightarrow> 'a executor \<Rightarrow> 'a executor option" where
  "request_loop ep st =
     (case request_step (ep (calls st) (clock st) (page st)) (send st) of
        Again st' \<Rightarrow> request_loop ep st'
      | Stop st' \<Rightarrow> Some st')"

definition run_request :: "'a endpoint \<Rightarrow> int \<Rightarrow> 'a executor option" where
  "run_request ep now =
     request_loop ep
       \<lparr>all_items = [], total_count = 0, page = 1, clock = now, calls = 0, trace = []\<rparr>"

text \<open>The dictionary that \<open>_make_request\<close> returns: the items and the total count.\<close>

definition make_request :: "'a endpoint \<Rightarrow> int \<Rightarrow> ('a list \<times> int) option" where
  "make_request ep now = map_option (\<lambda>st. (all_items st, total_count st)) (run_request ep now)"

text \<open>
  An endpoint over a corpus that serves it in pages of \<open>P\<close> items, reports the size of the
  corpus with the first page, and always leaves more than one request of quota.
\<close>

definition serves_pages :: "'a endpoint \<Rightarrow> 'a list \<Rightarrow> nat \<Rightarrow> bool" where
  "serves_pages ep corpus P \<longleftrightarrow>
     (\<forall>c t p. \<exists>h tc. ep c t p = Success h tc (take P (drop ((p - 1) * P) corpus)) \<and>
        1 < header_or_0 (rate_limit_remaining h) \<and> (p = 1 \<longrightarrow> tc = int (length corpus)))"

text \<open>Such an endpoint, with fixed headers.\<close>

definition paged_endpoint :: "'a list \<Rightarrow> nat \<Rightarrow> 'a endpoint" where
  "paged_endpoint corpus P c t p =
     Success \<lparr>rate_limit_remaining = Some 29, rate_limit_reset = Some 0\<rparr>
       (int (length corpus)) (take P (drop ((p - 1) * P) corpus))"

section \<open>Properties of the aggregator\<close>

lemmas aggregator_defs =
  add_repository_def select_repo_def build_repo_info_def getitem_def get_default_def
  hashable_def merge_record_def merge_scope_current_def merge_scope_all_def
  append_found_by_def merge_found_by_def str_in_def init_searcher_def global_record_def
  batch_record_def repo_obj_def records_after_def repo_name_of_def clear_current_def Let_def

lemma str_in_merge: "str_in tag (merge_found_by fb tag)"
proof -
  have "sublist tag ((fb @ '', '') @ tag)" by (rule sublist_append_leftI)
  then show ?thesis by (simp add: merge_found_by_def str_in_def)
qed

lemma merge_found_by_idem: "merge_found_by (merge_found_by fb tag) tag = merge_found_by fb tag"
  using str_in_merge [of tag fb] by (simp add: merge_found_by_def)

lemma append_found_by_apply:
  "append_found_by b tag h x =
     (if x = b then map_option (\<lambda>r. r\<lparr>found_by := merge_found_by (found_by r) tag\<rparr>) (h b)
      else h x)"
  by (simp add: append_found_by_def split: option.splits)

lemma next_ref_merge_record [simp]: "next_ref (merge_record n info cur s) = Suc (next_ref s)"
  by (simp add: merge_record_def merge_scope_current_def merge_scope_all_def Let_def
      split: option.splits)

lemma current_merge_record:
  "current_search_repos (merge_record n info cur s) =
     (if cur \<and> current_search_repos s n = None
      then (current_search_repos s)(n \<mapsto> next_ref s) else current_search_repos s)"
  by (simp add: merge_record_def merge_scope_current_def merge_scope_all_def Let_def
      split: option.splits)

lemma repos_merge_record:
  "repos (merge_record n info cur s) =
     (if repos s n = None then (repos s)(n \<mapsto> next_ref s) else repos s)"
  by (cases "repos s n"; cases "current_search_repos s n"; cases cur)
    (simp_all add: merge_record_def merge_scope_current_def merge_scope_all_def Let_def)

lemma store_merge_record:
  "store (merge_record n info cur s) =
     (case repos s n of
        None \<Rightarrow> store1 n info cur s
      | Some b \<Rightarrow> append_found_by b (found_by info) (store1 n info cur s))"
  by (simp add: merge_record_def merge_scope_current_def merge_scope_all_def Let_def store1_def
      split: option.splits)

lemma wf_repos: "wf s \<Longrightarrow> repos s n = Some a \<Longrightarrow> a < next_ref s \<and> (\<exists>r. store s a = Some r)"
  by (auto simp: wf_def)

lemma wf_current:
  "wf s \<Longrightarrow> current_search_repos s n = Some a \<Longrightarrow> a < next_ref s \<and> (\<exists>r. store s a = Some r)"
  by (auto simp: wf_def)

lemma wf_subset: "wf s \<Longrightarrow> current_search_repos s n = Some a \<Longrightarrow> \<exists>b. repos s n = Some b"
  by (auto simp: wf_def)

lemma wf_sep:
  "wf s \<Longrightarrow> repos s n = Some a \<or> current_search_repos s n = Some a \<Longrightarrow>
   repos s m = Some a \<or> current_search_repos s m = Some a \<Longrightarrow> n = m"
  unfolding wf_def by blast

lemma global_present:
  assumes "wf s" "repos s n = Some b" "store s b = Some r"
  shows "global_record (merge_record n info cur s) n
         = Some (r\<lparr>found_by := merge_found_by (found_by r) (found_by info)\<rparr>)"
proof -
  have b: "b \<noteq> next_ref s" using wf_repos [OF assms(1,2)] by simp
  show ?thesis
  proof (cases "cur \<and> current_search_repos s n \<noteq> None")
    case True
    then obtain a where a: "current_search_repos s n = Some a" by auto
    have "a \<noteq> next_ref s" using wf_current [OF assms(1) a] by simp
    then show ?thesis using assms b a True
      by (auto simp add: global_record_def repos_merge_record store_merge_record store1_def
          append_found_by_apply merge_found_by_idem)
  next
    case False
    then show ?thesis using assms b
      by (auto simp add: global_record_def repos_merge_record store_merge_record store1_def
          append_found_by_apply)
  qed
qed

lemma global_absent:
  assumes "wf s" "repos s n = None"
  shows "global_record (merge_record n info cur s) n = Some info"
proof -
  have "current_search_repos s n = None"
  proof (cases "current_search_repos s n")
    case (Some a)
    then show ?thesis using wf_subset [OF assms(1) Some] assms(2) by simp
  qed simp
  then show ?thesis using assms
    by (simp add: global_record_def repos_merge_record store_merge_record store1_def)
qed

lemma batch_present:
  assumes "wf s" "current_search_repos s n = Some a" "store s a = Some r"
  shows "batch_record (merge_record n info True s) n
         = Some (r\<lparr>found_by := merge_found_by (found_by r) (found_by info)\<rparr>)"
proof -
  have a: "a \<noteq> next_ref s" using wf_current [OF assms(1,2)] by simp
  obtain b where b: "repos s n = Some b" using wf_subset [OF assms(1,2)] by auto
  have "b \<noteq> next_ref s" using wf_repos [OF assms(1) b] by simp
  then show ?thesis using assms a b
    by (auto simp add: batch_record_def current_merge_record store_merge_record store1_def
          append_found_by_apply merge_found_by_idem)
qed

lemma batch_absent:
  assumes "wf s" "current_search_repos s n = None"
  shows "batch_record (merge_record n info True s) n = Some info"
proof (cases "repos s n")
  case None
  then show ?thesis using assms
    by (simp add: batch_record_def current_merge_record store_merge_record store1_def)
next
  case (Some b)
  have "b \<noteq> next_ref s" using wf_repos [OF assms(1) Some] by simp
  then show ?thesis using assms Some
    by (simp add: batch_record_def current_merge_record store_merge_record store1_def
        append_found_by_apply)
qed


lemma store_merge_record_old:
  assumes "x \<noteq> next_ref s"
    and "repos s n \<noteq> Some x" and "current_search_repos s n \<noteq> Some x"
  shows "store (merge_record n info cur s) x = store s x"
  using assms
  by (cases "repos s n"; cases "current_search_repos s n"; cases cur)
    (simp_all add: store_merge_record store1_def append_found_by_apply)

lemma store_merge_record_Some:
  assumes "store s x = Some r" "x \<noteq> next_ref s"
  shows "\<exists>r'. store (merge_record n info cur s) x = Some r' \<and> url r' = url r \<and>
           description r' = description r \<and>
           (found_by r' = found_by r \<or> found_by r' = merge_found_by (found_by r) (found_by info))"
  using assms
  by (cases "repos s n"; cases "current_search_repos s n"; cases cur)
    (auto simp add: store_merge_record store1_def append_found_by_apply merge_found_by_idem)

lemma store_merge_record_new:
  assumes "wf s"
  shows "\<exists>r'. store (merge_record n info cur s) (next_ref s) = Some r'"
proof -
  have "repos s n \<noteq> Some (next_ref s)" using wf_repos [OF assms, of n "next_ref s"] by auto
  moreover have "current_search_repos s n \<noteq> Some (next_ref s)"
    using wf_current [OF assms, of n "next_ref s"] by auto
  ultimately show ?thesis
    by (cases "repos s n"; cases "current_search_repos s n"; cases cur)
      (simp_all add: store_merge_record store1_def append_found_by_apply)
qed

lemma other_global:
  assumes "wf s" "m \<noteq> n"
  shows "global_record (merge_record n info cur s) m = global_record s m"
proof (cases "repos s m")
  case None
  then show ?thesis using assms by (simp add: global_record_def repos_merge_record)
next
  case (Some x)
  have "x \<noteq> next_ref s" using wf_repos [OF assms(1) Some] by simp
  moreover have "repos s n \<noteq> Some x" using wf_sep [OF assms(1), of m x n] Some assms(2) by auto
  moreover have "current_search_repos s n \<noteq> Some x"
    using wf_sep [OF assms(1), of m x n] Some assms(2) by auto
  ultimately show ?thesis using Some assms(2)
    by (simp add: global_record_def repos_merge_record store_merge_record_old)
qed

lemma other_batch:
  assumes "wf s" "m \<noteq> n"
  shows "batch_record (merge_record n info cur s) m = batch_record s m"
proof (cases "current_search_repos s m")
  case None
  then show ?thesis using assms by (simp add: batch_record_def current_merge_record)
next
  case (Some x)
  have "x \<noteq> next_ref s" using wf_current [OF assms(1) Some] by simp
  moreover have "repos s n \<noteq> Some x" using wf_sep [OF assms(1), of m x n] Some assms(2) by auto
  moreover have "current_search_repos s n \<noteq> Some x"
    using wf_sep [OF assms(1), of m x n] Some assms(2) by auto
  ultimately show ?thesis using Some assms(2)
    by (simp add: batch_record_def current_merge_record store_merge_record_old)
qed

lemma wf_merge_record:
  assumes "wf s"
  shows "wf (merge_record n info cur s)"
proof -
  let ?s = "merge_record n info cur s"
  have fresh_r: "repos s k \<noteq> Some (next_ref s)" for k
    using wf_repos [OF assms, of k "next_ref s"] by auto
  have fresh_c: "current_search_repos s k \<noteq> Some (next_ref s)" for k
    using wf_current [OF assms, of k "next_ref s"] by auto
  have st: "\<exists>r. store ?s a = Some r" if "a < next_ref s" "store s a \<noteq> None" for a
  proof -
    from that obtain r where "store s a = Some r" by auto
    from store_merge_record_Some [OF this, of n info cur] that(1) show ?thesis by auto
  qed
  have r: "a < next_ref ?s \<and> store ?s a \<noteq> None" if "repos ?s k = Some a" for k a
  proof (cases "repos s k = Some a")
    case True
    then show ?thesis using wf_repos [OF assms True] st [of a] by auto
  next
    case False
    then have "a = next_ref s" using that by (auto simp: repos_merge_record split: if_splits)
    then show ?thesis using store_merge_record_new [OF assms, of n info cur] by auto
  qed
  have c: "a < next_ref ?s \<and> store ?s a \<noteq> None" if "current_search_repos ?s k = Some a" for k a
  proof (cases "current_search_repos s k = Some a")
    case True
    then show ?thesis using wf_current [OF assms True] st [of a] by auto
  next
    case False
    then have "a = next_ref s" using that by (auto simp: current_merge_record split: if_splits)
    then show ?thesis using store_merge_record_new [OF assms, of n info cur] by auto
  qed
  have own: "k = n" if "repos ?s k = Some (next_ref s) \<or> current_search_repos ?s k = Some (next_ref s)" for k
    using that fresh_r [of k] fresh_c [of k]
    by (auto simp: repos_merge_record current_merge_record split: if_splits)
  have old: "repos s k = Some a \<or> current_search_repos s k = Some a"
    if "repos ?s k = Some a \<or> current_search_repos ?s k = Some a" "a \<noteq> next_ref s" for k a
    using that by (auto simp: repos_merge_record current_merge_record split: if_splits)
  have sep: "k = m"
    if "repos ?s k = Some a \<or> current_search_repos ?s k = Some a"
      "repos ?s m = Some a \<or> current_search_repos ?s m = Some a" for k m a
  proof (cases "a = next_ref s")
    case True
    then show ?thesis using own [of k] own [of m] that by simp
  next
    case False
    show ?thesis using wf_sep [OF assms old [OF that(1) False] old [OF that(2) False]] .
  qed
  have sub: "repos ?s k \<noteq> None" if "current_search_repos ?s k \<noteq> None" for k
  proof (cases "current_search_repos s k")
    case None
    then have "k = n" using that by (auto simp: current_merge_record split: if_splits)
    then show ?thesis by (simp add: repos_merge_record)
  next
    case (Some a)
    then obtain b where "repos s k = Some b" using wf_subset [OF assms Some] by auto
    then show ?thesis by (simp add: repos_merge_record)
  qed
  show ?thesis unfolding wf_def using r c sep sub by blast
qed

lemma wf_init: "wf init_searcher"
  by (simp add: wf_def init_searcher_def)

lemma wf_clear: "wf s \<Longrightarrow> wf (clear_current s)"
  by (simp add: wf_def clear_current_def)

lemma add_repository_Inr:
  "add_repository d tag cur s = Inr s' \<Longrightarrow>
   \<exists>repo name info. select_repo d = Inr repo \<and> build_repo_info repo tag = Inr (name, info) \<and>
      hashable name \<and> s' = merge_record name info cur s"
  by (auto simp: add_repository_def split: sum.splits if_splits)

lemma wf_step: "wf s \<Longrightarrow> step x s = Inr s' \<Longrightarrow> wf s'"
  by (cases x) (auto dest!: add_repository_Inr simp: wf_merge_record wf_clear)

lemma wf_run: "wf s \<Longrightarrow> run xs s = Inr s' \<Longrightarrow> wf s'"
proof (induction xs arbitrary: s)
  case Nil
  then show ?case by simp
next
  case (Cons x xs)
  then show ?case by (auto split: sum.splits dest: wf_step)
qed

lemma build_repo_info_Inr:
  "build_repo_info repo tag = Inr (name, info) \<Longrightarrow>
   getitem repo ''full_name'' = Inr name \<and> found_by info = tag"
  by (auto simp: build_repo_info_def split: sum.splits pyval.splits)

lemma add_repository_name:
  assumes "add_repository d tag cur s = Inr s'" "repo_name_of d = Some name"
  shows "\<exists>info. found_by info = tag \<and> s' = merge_record name info cur s"
proof -
  obtain repo n info where *: "select_repo d = Inr repo" "build_repo_info repo tag = Inr (n, info)"
    "s' = merge_record n info cur s"
    using add_repository_Inr [OF assms(1)] by blast
  from build_repo_info_Inr [OF *(2)] have "getitem repo ''full_name'' = Inr n" "found_by info = tag"
    by simp_all
  moreover from this *(1) assms(2) have "n = name" by (simp add: repo_name_of_def)
  ultimately show ?thesis using *(3) by blast
qed

lemma run_append:
  "run (xs @ ys) s = (case run xs s of Inl e \<Rightarrow> Inl e | Inr s' \<Rightarrow> run ys s')"
  by (induction xs arbitrary: s) (auto split: sum.splits)

subsection \<open>Merging into a scope that has the name\<close>

text \<open>
  C1, as the code has it. When the name of the merged item is already in a scope,
  the record of that scope keeps the \<open>url\<close> and the \<open>description\<close> it was created with
  (the incoming values are dropped), and its \<open>found_by\<close> gains \<open>", " + tag\<close> exactly when
  the tag is not yet a substring of it. This holds for the global scope at every merge and
  for the batch scope at every merge with \<open>is_current_search\<close>.
\<close>

theorem merge_keeps_fields_appends_tag:
  assumes "run ops init_searcher = Inr s"
    and "add_repository d tag cur s = Inr s'"
    and "repo_name_of d = Some name"
  shows "(\<forall>r. global_record s name = Some r \<longrightarrow>
            global_record s' name = Some (r\<lparr>found_by := merge_found_by (found_by r) tag\<rparr>)) \<and>
         (\<forall>r. cur \<and> batch_record s name = Some r \<longrightarrow>
            batch_record s' name = Some (r\<lparr>found_by := merge_found_by (found_by r) tag\<rparr>))"
proof -
  have w: "wf s" using wf_run [OF wf_init assms(1)] .
  obtain info where info: "found_by info = tag" "s' = merge_record name info cur s"
    using add_repository_name [OF assms(2,3)] by blast
  have g: "global_record s' name = Some (r\<lparr>found_by := merge_found_by (found_by r) tag\<rparr>)"
    if "global_record s name = Some r" for r
  proof -
    from that obtain b where "repos s name = Some b" "store s b = Some r"
      by (auto simp: global_record_def split: option.splits)
    from global_present [OF w this, of info cur] info show ?thesis by simp
  qed
  have b: "batch_record s' name = Some (r\<lparr>found_by := merge_found_by (found_by r) tag\<rparr>)"
    if "cur" "batch_record s name = Some r" for r
  proof -
    from that obtain a where "current_search_repos s name = Some a" "store s a = Some r"
      by (auto simp: batch_record_def split: option.splits)
    from batch_present [OF w this, of info] info that(1) show ?thesis by simp
  qed
  show ?thesis using g b by blast
qed

theorem merge_keeps_fields_appends_tag_witness:
  "records_after [Add (repo_obj ''acme/widget'' ''u1'' ''d1'') ''t1'' True,
                  Add (repo_obj ''acme/widget'' ''u2'' ''d2'') ''t2'' True] (PStr ''acme/widget'')
   = Inr (Some \<lparr>url = PStr ''u1'', description = PStr ''d1'', found_by = ''t1, t2''\<rparr>,
          Some \<lparr>url = PStr ''u1'', description = PStr ''d1'', found_by = ''t1, t2''\<rparr>)"
proof -
  let ?n = "PStr ''acme/widget''"
  let ?d1 = "repo_obj ''acme/widget'' ''u1'' ''d1''"
  let ?d2 = "repo_obj ''acme/widget'' ''u2'' ''d2''"
  let ?r = "\<lparr>url = PStr ''u1'', description = PStr ''d1'', found_by = ''t1''\<rparr>"
  obtain s where s: "run [Add ?d1 ''t1'' True] init_searcher = Inr s"
    by (simp add: aggregator_defs)
  obtain s' where s': "add_repository ?d2 ''t2'' True s = Inr s'"
    by (simp add: aggregator_defs)
  have n: "repo_name_of ?d2 = Some ?n" by (simp add: aggregator_defs)
  have g: "global_record s ?n = Some ?r" and b: "batch_record s ?n = Some ?r"
    using s by (auto simp add: aggregator_defs)
  have m: "merge_found_by ''t1'' ''t2'' = ''t1, t2''"
    by (simp add: merge_found_by_def str_in_def sublist_Cons_right)
  have "global_record s' ?n = Some (?r\<lparr>found_by := ''t1, t2''\<rparr>)"
    and "batch_record s' ?n = Some (?r\<lparr>found_by := ''t1, t2''\<rparr>)"
    using merge_keeps_fields_appends_tag [OF s s' n] g b m by auto
  moreover have "run ([Add ?d1 ''t1'' True] @ [Add ?d2 ''t2'' True]) init_searcher = Inr s'"
    using s s' by (simp only: run_append sum.case run.simps step.simps)
  ultimately show ?thesis by (simp add: records_after_def)
qed

text \<open>
  C1 as stated fails: a second merge of \<open>acme/widget\<close> with a new url and a new
  description leaves the first url and description in both scopes.
\<close>

theorem merge_overwrites_fields_counterexample:
  "records_after [Add (repo_obj ''acme/widget'' ''old-url'' ''old text'') ''t1'' True,
                  Add (repo_obj ''acme/widget'' ''new-url'' ''new text'') ''t2'' True]
     (PStr ''acme/widget'')
   = Inr (Some \<lparr>url = PStr ''old-url'', description = PStr ''old text'', found_by = ''t1, t2''\<rparr>,
          Some \<lparr>url = PStr ''old-url'', description = PStr ''old text'', found_by = ''t1, t2''\<rparr>)"
  by (simp add: aggregator_defs sublist_Cons_right)

subsection \<open>The description of a new record\<close>









subsection \<open>Splitting and merging provenance strings\<close>

lemma split_acc_hit: "split_acc '', '' acc ('', '' @ r) = acc # split_acc '', '' [] r"
  by simp

lemma split_acc_miss:
  "\<not> prefix '', '' (c # cs) \<Longrightarrow> split_acc '', '' acc (c # cs) = split_acc '', '' (acc @ [c]) cs"
  by auto

lemma split_acc_comma_append:
  "split_acc '', '' acc (s @ '', '' @ t) = split_acc '', '' acc s @ split_acc '', '' [] t"
proof (induction s arbitrary: acc rule: length_induct)
  case (1 s)
  show ?case
  proof (cases s)
    case Nil
    then show ?thesis by simp
  next
    case (Cons c cs)
    show ?thesis
    proof (cases "prefix '', '' s")
      case True
      then obtain cs' where s: "s = '', '' @ cs'" by (auto simp: prefix_def)
      have "length cs' < length s" using s by simp
      with 1 have ih: "split_acc '', '' [] (cs' @ '', '' @ t)
          = split_acc '', '' [] cs' @ split_acc '', '' [] t"
        by blast
      have "split_acc '', '' acc (s @ '', '' @ t) = split_acc '', '' acc ('', '' @ (cs' @ '', '' @ t))"
        by (simp only: s append_assoc)
      also have "\<dots> = acc # split_acc '', '' [] (cs' @ '', '' @ t)" by (rule split_acc_hit)
      also have "\<dots> = acc # (split_acc '', '' [] cs' @ split_acc '', '' [] t)"
        by (simp only: ih)
      also have "\<dots> = (acc # split_acc '', '' [] cs') @ split_acc '', '' [] t"
        by simp
      also have "acc # split_acc '', '' [] cs' = split_acc '', '' acc s"
        by (simp only: s split_acc_hit)
      finally show ?thesis .
    next
      case False
      have np: "\<not> prefix '', '' (c # (cs @ '', '' @ t))"
        using False Cons by (cases cs) auto
      have np': "\<not> prefix '', '' (c # cs)" using False Cons by simp
      have "length cs < length s" using Cons by simp
      with 1 have ih: "split_acc '', '' (acc @ [c]) (cs @ '', '' @ t)
          = split_acc '', '' (acc @ [c]) cs @ split_acc '', '' [] t"
        by blast
      have "split_acc '', '' acc (s @ '', '' @ t) = split_acc '', '' acc (c # (cs @ '', '' @ t))"
        by (simp only: Cons append_Cons)
      also have "\<dots> = split_acc '', '' (acc @ [c]) (cs @ '', '' @ t)"
        by (rule split_acc_miss [OF np])
      also have "\<dots> = split_acc '', '' (acc @ [c]) cs @ split_acc '', '' [] t" by (rule ih)
      also have "split_acc '', '' (acc @ [c]) cs = split_acc '', '' acc s"
        by (simp only: Cons split_acc_miss [OF np'])
      finally show ?thesis .
    qed
  qed
qed

lemma provenance_append: "provenance (s @ '', '' @ t) = provenance s @ provenance t"
  unfolding provenance_def str_split_def by (rule split_acc_comma_append)

lemma split_acc_sublist: "x \<in> set (split_acc sep acc s) \<Longrightarrow> sublist x (acc @ s)"
proof (induction sep acc s rule: split_acc.induct)
  case (1 sep acc)
  then show ?case by simp
next
  case (2 sep acc c cs)
  show ?case
  proof (cases "sep \<noteq> [] \<and> prefix sep (c # cs)")
    case True
    then have "x = acc \<or> x \<in> set (split_acc sep [] (drop (length sep) (c # cs)))"
      using 2(3) by simp
    then show ?thesis
    proof
      assume "x = acc"
      then show ?thesis by simp
    next
      assume "x \<in> set (split_acc sep [] (drop (length sep) (c # cs)))"
      then have "sublist x ([] @ drop (length sep) (c # cs))" using 2(1) True by blast
      then have "sublist x (drop (length sep) (c # cs))" by simp
      moreover have "sublist (drop (length sep) (c # cs)) (acc @ c # cs)"
        by (metis sublist_drop sublist_append_leftI sublist_order.order_trans)
      ultimately show ?thesis using sublist_order.order_trans by blast
    qed
  next
    case False
    then have "x \<in> set (split_acc sep (acc @ [c]) cs)" using 2(3) by auto
    then have "sublist x ((acc @ [c]) @ cs)" using 2(2) False by blast
    then show ?thesis by simp
  qed
qed

lemma provenance_sublist: "x \<in> set (provenance fb) \<Longrightarrow> sublist x fb"
  using split_acc_sublist [of x "'', ''" "[]" fb] by (simp add: provenance_def str_split_def)

lemma split_acc_no_comma:
  "CHR '','' \<notin> set t \<Longrightarrow> split_acc '', '' acc t = [acc @ t]"
  by (induction t arbitrary: acc) auto

lemma provenance_single: "CHR '','' \<notin> set t \<Longrightarrow> provenance t = [t]"
  by (simp add: provenance_def str_split_def split_acc_no_comma)

lemma plain_sublist_Cons:
  assumes "plain_tag t" "sublist t (c # cs)" "c = CHR '','' \<or> c = CHR '' ''"
  shows "sublist t cs"
proof (cases t)
  case Nil
  then show ?thesis by simp
next
  case (Cons d ds)
  then have "\<not> prefix t (c # cs)" using assms(1,3) by (auto simp: plain_tag_def)
  then show ?thesis using assms(2) by (simp add: sublist_Cons_right)
qed

lemma plain_sublist_append:
  assumes "plain_tag t" "sublist t (acc @ '', '' @ r)"
  shows "sublist t acc \<or> sublist t r"
proof -
  from assms(2) consider "sublist t acc" | "sublist t ('', '' @ r)"
    | t1 t2 where "t = t1 @ t2" "suffix t1 acc" "prefix t2 ('', '' @ r)"
    unfolding sublist_append by blast
  then show ?thesis
  proof cases
    case 1
    then show ?thesis by simp
  next
    case 2
    then have "sublist t (CHR '','' # CHR '' '' # r)" by simp
    then have "sublist t (CHR '' '' # r)" using plain_sublist_Cons [OF assms(1)] by blast
    then have "sublist t r" using plain_sublist_Cons [OF assms(1)] by blast
    then show ?thesis by simp
  next
    case 3
    show ?thesis
    proof (cases t2)
      case Nil
      then show ?thesis using 3 by auto
    next
      case (Cons d ds)
      then have "d = CHR '',''" using 3(3) by simp
      then have "CHR '','' \<in> set t" using 3(1) Cons by simp
      then show ?thesis using assms(1) by (simp add: plain_tag_def)
    qed
  qed
qed

lemma plain_sublist_split:
  assumes "plain_tag t"
  shows "sublist t (acc @ s) \<Longrightarrow> \<exists>x \<in> set (split_acc '', '' acc s). sublist t x"
proof (induction s arbitrary: acc rule: length_induct)
  case (1 s)
  show ?case
  proof (cases s)
    case Nil
    then show ?thesis using 1(2) by simp
  next
    case (Cons c cs)
    show ?thesis
    proof (cases "prefix '', '' s")
      case True
      then obtain r where s: "s = '', '' @ r" by (auto simp: prefix_def)
      have sp: "split_acc '', '' acc s = acc # split_acc '', '' [] r"
        by (simp only: s split_acc_hit)
      have "sublist t (acc @ '', '' @ r)" using 1(2) s by simp
      then have "sublist t acc \<or> sublist t r" by (rule plain_sublist_append [OF assms])
      then show ?thesis
      proof
        assume "sublist t acc"
        then show ?thesis using sp by simp
      next
        assume "sublist t r"
        then have "sublist t ([] @ r)" by simp
        moreover have "length r < length s" using s by simp
        ultimately have "\<exists>x \<in> set (split_acc '', '' [] r). sublist t x" using 1(1) by blast
        then show ?thesis using sp by auto
      qed
    next
      case False
      then have np: "\<not> prefix '', '' (c # cs)" using Cons by simp
      have sp: "split_acc '', '' acc s = split_acc '', '' (acc @ [c]) cs"
        by (simp only: Cons split_acc_miss [OF np])
      have "sublist t ((acc @ [c]) @ cs)" using 1(2) Cons by simp
      moreover have "length cs < length s" using Cons by simp
      ultimately have "\<exists>x \<in> set (split_acc '', '' (acc @ [c]) cs). sublist t x"
        using 1(1) by blast
      then show ?thesis using sp by simp
    qed
  qed
qed

lemma plain_sublist_items:
  "plain_tag t \<Longrightarrow> sublist t fb \<Longrightarrow> \<exists>x \<in> set (provenance fb). sublist t x"
  using plain_sublist_split [of t "[]" fb] by (simp add: provenance_def str_split_def)


lemma provenance_append_Cons:
  "provenance (s @ CHR '','' # CHR '' '' # t) = provenance s @ provenance t"
  using provenance_append [of s t] by simp

lemma prefix_merge_found_by: "prefix fb (merge_found_by fb t)"
  by (simp add: merge_found_by_def)

lemma str_in_mono: "str_in u fb \<Longrightarrow> prefix fb fb' \<Longrightarrow> str_in u fb'"
  unfolding str_in_def
  by (meson prefix_imp_sublist sublist_order.order_trans)

lemma provenance_merge_subset:
  "set (provenance (merge_found_by fb t)) \<subseteq> set (provenance fb) \<union> set (provenance t)"
  and provenance_merge_mono: "set (provenance fb) \<subseteq> set (provenance (merge_found_by fb t))"
  by (simp_all add: merge_found_by_def provenance_append_Cons)

lemma prefix_foldl_merge: "prefix fb (foldl merge_found_by fb ts)"
proof (induction ts arbitrary: fb)
  case Nil
  then show ?case by simp
next
  case (Cons t ts)
  have "prefix fb (merge_found_by fb t)" by (rule prefix_merge_found_by)
  also have "prefix (merge_found_by fb t) (foldl merge_found_by (merge_found_by fb t) ts)"
    by (rule Cons.IH)
  finally show ?case by simp
qed

lemma provenance_foldl_mono:
  "set (provenance fb) \<subseteq> set (provenance (foldl merge_found_by fb ts))"
proof (induction ts arbitrary: fb)
  case Nil
  then show ?case by simp
next
  case (Cons t ts)
  show ?case using provenance_merge_mono [of fb t] Cons.IH [of "merge_found_by fb t"] by auto
qed

lemma str_in_foldl_merge: "t \<in> set ts \<Longrightarrow> str_in t (foldl merge_found_by fb ts)"
proof (induction ts arbitrary: fb)
  case Nil
  then show ?case by simp
next
  case (Cons u us)
  show ?case
  proof (cases "t = u")
    case True
    have "str_in t (merge_found_by fb t)" by (rule str_in_merge)
    then show ?thesis using True str_in_mono prefix_foldl_merge by fastforce
  next
    case False
    then show ?thesis using Cons by simp
  qed
qed

lemma str_in_refl: "str_in t t"
  by (simp add: str_in_def)

lemma str_in_foldl_first: "str_in t (foldl merge_found_by t ts)"
  using str_in_mono [OF str_in_refl prefix_foldl_merge] .

lemma separable_mem:
  assumes "separable T" "t \<in> T" "set (provenance fb) \<subseteq> T"
  shows "str_in t fb \<longleftrightarrow> t \<in> set (provenance fb)"
proof
  assume "str_in t fb"
  then have "sublist t fb" by (simp add: str_in_def)
  moreover have "plain_tag t" using assms(1,2) by (simp add: separable_def)
  ultimately obtain x where x: "x \<in> set (provenance fb)" "sublist t x"
    using plain_sublist_items by blast
  then have "x \<in> T" using assms(3) by blast
  then have "t = x" using assms(1,2) x(2) unfolding separable_def by blast
  then show "t \<in> set (provenance fb)" using x(1) by simp
next
  assume "t \<in> set (provenance fb)"
  then show "str_in t fb" by (simp add: str_in_def provenance_sublist)
qed

lemma separable_merge:
  assumes "separable T" "t \<in> T" "set (provenance fb) \<subseteq> T"
  shows "provenance (merge_found_by fb t)
         = (if t \<in> set (provenance fb) then provenance fb else provenance fb @ [t])"
proof -
  have "CHR '','' \<notin> set t" using assms(1,2) by (simp add: separable_def plain_tag_def)
  then have "provenance t = [t]" by (rule provenance_single)
  then show ?thesis using separable_mem [OF assms]
    by (simp add: merge_found_by_def provenance_append_Cons)
qed

lemma separable_foldl:
  assumes "separable T" "set ts \<subseteq> T" "set (provenance fb) \<subseteq> T" "distinct (provenance fb)"
  shows "set (provenance (foldl merge_found_by fb ts)) = set (provenance fb) \<union> set ts \<and>
         distinct (provenance (foldl merge_found_by fb ts))"
  using assms(2-4)
proof (induction ts arbitrary: fb)
  case Nil
  then show ?case by simp
next
  case (Cons t ts)
  have t: "t \<in> T" using Cons.prems(1) by simp
  note m = separable_merge [OF assms(1) t Cons.prems(2)]
  have "set (provenance (merge_found_by fb t)) \<subseteq> T" using m t Cons.prems(2) by auto
  moreover have "distinct (provenance (merge_found_by fb t))" using m Cons.prems(3) by auto
  moreover have "set ts \<subseteq> T" using Cons.prems(1) by simp
  ultimately have "set (provenance (foldl merge_found_by (merge_found_by fb t) ts))
        = set (provenance (merge_found_by fb t)) \<union> set ts \<and>
      distinct (provenance (foldl merge_found_by (merge_found_by fb t) ts))"
    using Cons.IH by blast
  then show ?case using m by auto
qed

lemma separable_foldl_first:
  assumes "separable T" "set (t # ts) \<subseteq> T"
  shows "set (provenance (foldl merge_found_by t ts)) = set (t # ts) \<and>
         distinct (provenance (foldl merge_found_by t ts))"
proof -
  have "CHR '','' \<notin> set t" using assms by (simp add: separable_def plain_tag_def)
  then have "provenance t = [t]" by (rule provenance_single)
  then show ?thesis using separable_foldl [OF assms(1), of ts t] assms(2) by simp
qed

lemma fold_tags_Some: "fold_tags (Some fb) ts = Some (foldl merge_found_by fb ts)"
  by (induction ts arbitrary: fb) simp_all

lemma fold_tags_append: "fold_tags fb (xs @ ys) = fold_tags (fold_tags fb xs) ys"
  by (induction fb xs rule: fold_tags.induct) simp_all

lemma tags_applied_append:
  "tags_applied name (xs @ ys) = tags_applied name xs @ tags_applied name ys"
  by (induction name xs rule: tags_applied.induct) simp_all

lemma add_repository_named:
  assumes "add_repository d tag cur s = Inr s'"
  shows "\<exists>n info. repo_name_of d = Some n \<and> found_by info = tag \<and> s' = merge_record n info cur s"
proof -
  obtain repo n info where *: "select_repo d = Inr repo" "build_repo_info repo tag = Inr (n, info)"
    "s' = merge_record n info cur s"
    using add_repository_Inr [OF assms] by blast
  from build_repo_info_Inr [OF *(2)] have "getitem repo ''full_name'' = Inr n" "found_by info = tag"
    by simp_all
  then show ?thesis using * by (auto simp: repo_name_of_def)
qed

lemma global_found_by_step:
  assumes "wf s" "found_by info = tag"
  shows "map_option found_by (global_record (merge_record n info cur s) n)
         = fold_tags (map_option found_by (global_record s n)) [tag]"
proof (cases "repos s n")
  case None
  then show ?thesis using global_absent [OF assms(1) None, of info cur] assms(2)
    by (simp add: global_record_def)
next
  case (Some b)
  then obtain r where r: "store s b = Some r" using wf_repos [OF assms(1) Some] by blast
  show ?thesis using global_present [OF assms(1) Some r, of info cur] Some r assms(2)
    by (simp add: global_record_def)
qed

lemma global_found_by_run:
  assumes "wf s" "run ops s = Inr s'"
  shows "map_option found_by (global_record s' name)
         = fold_tags (map_option found_by (global_record s name)) (tags_applied name ops)"
  using assms
proof (induction ops arbitrary: s)
  case Nil
  then show ?case by simp
next
  case (Cons x xs)
  from Cons.prems(2) obtain s1 where s1: "step x s = Inr s1" "run xs s1 = Inr s'"
    by (auto split: sum.splits)
  have w1: "wf s1" using wf_step [OF Cons.prems(1) s1(1)] .
  note ih = Cons.IH [OF w1 s1(2)]
  show ?case
  proof (cases x)
    case Clear
    then have "global_record s1 name = global_record s name"
      using s1(1) by (auto simp: clear_current_def global_record_def split: option.splits)
    then show ?thesis using ih Clear by simp
  next
    case (Add d tag cur)
    then obtain n info where n: "repo_name_of d = Some n" "found_by info = tag"
      "s1 = merge_record n info cur s"
      using s1(1) add_repository_named by fastforce
    show ?thesis
    proof (cases "n = name")
      case True
      have e: "map_option found_by (global_record s1 name)
            = fold_tags (map_option found_by (global_record s name)) [tag]"
        using global_found_by_step [OF Cons.prems(1) n(2), of name cur] n(3) True by simp
      have t: "tags_applied name (x # xs) = [tag] @ tags_applied name xs"
        using Add n(1) True by simp
      show ?thesis unfolding t fold_tags_append e [symmetric] by (rule ih)
    next
      case False
      then have "global_record s1 name = global_record s name"
        using other_global [OF Cons.prems(1), of name n info cur] n(3) by simp
      then show ?thesis using ih Add n(1) False by simp
    qed
  qed
qed

lemma fold_tags_None_Some:
  "fold_tags None ts = Some fb \<Longrightarrow> \<exists>t us. ts = t # us \<and> fb = foldl merge_found_by t us"
  by (cases ts) (simp_all add: fold_tags_Some)

subsection \<open>The provenance of the global record along a run\<close>

text \<open>
  C2, as the code has it. Along any run, once the global scope has a record for a name,
  the record stays, its \<open>found_by\<close> string only grows at the end (so it never loses a
  tag), its set of provenance tags only grows, and every tag merged under the name so far
  is contained in the string as a substring. The set of provenance tags equals the set of
  tags merged under the name, each listed once, when those tags are separable: none has
  a comma or a leading blank and none occurs inside another.
\<close>

theorem provenance_grows:
  assumes "run ops init_searcher = Inr s"
    and "run (ops @ later) init_searcher = Inr s'"
    and "global_record s name = Some r"
  shows "\<exists>r'. global_record s' name = Some r' \<and>
           prefix (found_by r) (found_by r') \<and>
           set (provenance (found_by r)) \<subseteq> set (provenance (found_by r')) \<and>
           (\<forall>t \<in> set (tags_applied name (ops @ later)). str_in t (found_by r')) \<and>
           (separable (set (tags_applied name (ops @ later))) \<longrightarrow>
              set (provenance (found_by r')) = set (tags_applied name (ops @ later)) \<and>
              distinct (provenance (found_by r')))"
proof -
  let ?ts = "tags_applied name ops" and ?us = "tags_applied name later"
  have w: "wf s" using wf_run [OF wf_init assms(1)] .
  have s': "run later s = Inr s'" using assms(1,2) by (simp add: run_append)
  have e0: "global_record init_searcher name = None"
    by (simp add: global_record_def init_searcher_def)
  have "Some (found_by r) = fold_tags None ?ts"
    using global_found_by_run [OF wf_init assms(1), of name] assms(3) e0 by simp
  then obtain t ts where ts: "?ts = t # ts" "found_by r = foldl merge_found_by t ts"
    using fold_tags_None_Some [of ?ts "found_by r"] by auto
  have "map_option found_by (global_record s' name) = fold_tags (Some (found_by r)) ?us"
    using global_found_by_run [OF w s', of name] assms(3) by simp
  then obtain r' where r': "global_record s' name = Some r'"
    "found_by r' = foldl merge_found_by (found_by r) ?us"
    by (auto simp: fold_tags_Some)
  have all: "tags_applied name (ops @ later) = t # (ts @ ?us)"
    by (simp add: tags_applied_append ts(1))
  have fb: "found_by r' = foldl merge_found_by t (ts @ ?us)"
    using r'(2) ts(2) by simp
  have 1: "prefix (found_by r) (found_by r')" unfolding r'(2) by (rule prefix_foldl_merge)
  have 2: "set (provenance (found_by r)) \<subseteq> set (provenance (found_by r'))"
    unfolding r'(2) by (rule provenance_foldl_mono)
  have 3: "str_in u (found_by r')" if "u \<in> set (tags_applied name (ops @ later))" for u
  proof (cases "u = t")
    case True
    show ?thesis unfolding fb True by (rule str_in_foldl_first)
  next
    case False
    then have "u \<in> set (ts @ ?us)" using that all by simp
    then show ?thesis unfolding fb by (rule str_in_foldl_merge)
  qed
  have 4: "set (provenance (found_by r')) = set (tags_applied name (ops @ later)) \<and>
           distinct (provenance (found_by r'))"
    if "separable (set (tags_applied name (ops @ later)))"
    using separable_foldl_first [OF that, of t "ts @ ?us"] all fb by simp
  show ?thesis using r'(1) 1 2 3 4 by blast
qed

theorem provenance_grows_witness:
  "\<exists>r'. global_record
          (projr (run ([Add (repo_obj ''acme/widget'' ''u'' ''d'') ''code_search: x'' True] @
                       [Clear, Add (repo_obj ''acme/widget'' ''u'' ''d'') ''commit_search: x'' True])
                   init_searcher))
          (PStr ''acme/widget'') = Some r' \<and>
        prefix ''code_search: x'' (found_by r') \<and>
        str_in ''commit_search: x'' (found_by r') \<and>
        set (provenance (found_by r')) = {''code_search: x'', ''commit_search: x''}"
proof -
  let ?n = "PStr ''acme/widget''"
  let ?w1 = "[Add (repo_obj ''acme/widget'' ''u'' ''d'') ''code_search: x'' True]"
  let ?w2 = "[Clear, Add (repo_obj ''acme/widget'' ''u'' ''d'') ''commit_search: x'' True]"
  let ?r = "\<lparr>url = PStr ''u'', description = PStr ''d'', found_by = ''code_search: x''\<rparr>"
  obtain s where s: "run ?w1 init_searcher = Inr s"
    by (simp add: aggregator_defs)
  have g: "global_record s ?n = Some ?r"
    using s by (auto simp add: aggregator_defs)
  obtain s' where s': "run (?w1 @ ?w2) init_searcher = Inr s'"
    by (simp add: aggregator_defs)
  have t: "tags_applied ?n (?w1 @ ?w2) = [''code_search: x'', ''commit_search: x'']"
    by (simp add: repo_name_of_def select_repo_def repo_obj_def getitem_def)
  have sep: "separable (set (tags_applied ?n (?w1 @ ?w2)))"
    unfolding t by (simp add: separable_def plain_tag_def sublist_Cons_right)
  from provenance_grows [OF s s' g] sep t obtain r' where
    "global_record s' ?n = Some r'" "prefix ''code_search: x'' (found_by r')"
    "str_in ''commit_search: x'' (found_by r')"
    "set (provenance (found_by r')) = {''code_search: x'', ''commit_search: x''}"
    by auto
  then show ?thesis unfolding s' by auto
qed

text \<open>
  C2 as stated fails: a tag that occurs inside an earlier tag is never appended, so the
  provenance set misses it.
\<close>

theorem provenance_union_counterexample:
  "records_after [Add (repo_obj ''acme/widget'' ''u'' ''d'') ''file: a/b'' True,
                  Add (repo_obj ''acme/widget'' ''u'' ''d'') ''file: a'' True] (PStr ''acme/widget'')
   = Inr (Some \<lparr>url = PStr ''u'', description = PStr ''d'', found_by = ''file: a/b''\<rparr>,
          Some \<lparr>url = PStr ''u'', description = PStr ''d'', found_by = ''file: a/b''\<rparr>) \<and>
   tags_applied (PStr ''acme/widget'')
     [Add (repo_obj ''acme/widget'' ''u'' ''d'') ''file: a/b'' True,
      Add (repo_obj ''acme/widget'' ''u'' ''d'') ''file: a'' True] = [''file: a/b'', ''file: a''] \<and>
   set (provenance ''file: a/b'') \<noteq> set [''file: a/b'', ''file: a'']"
  by (simp add: aggregator_defs sublist_Cons_right provenance_def str_split_def)

subsection \<open>Merging the same tag again\<close>

lemma merge_found_by_noop: "str_in tag fb \<Longrightarrow> merge_found_by fb tag = fb"
  by (simp add: merge_found_by_def)

lemma merge_record_noop:
  assumes "wf s" "found_by info = tag"
    and "repos s name = Some b" "store s b = Some r" "str_in tag (found_by r)"
    and "cur \<longrightarrow> (\<exists>a ra. current_search_repos s name = Some a \<and> store s a = Some ra \<and>
                    str_in tag (found_by ra))"
  shows "repos (merge_record name info cur s) = repos s"
    and "current_search_repos (merge_record name info cur s) = current_search_repos s"
    and "x \<noteq> next_ref s \<Longrightarrow> store (merge_record name info cur s) x = store s x"
proof -
  show "repos (merge_record name info cur s) = repos s"
    using assms(3) by (simp add: repos_merge_record)
  show "current_search_repos (merge_record name info cur s) = current_search_repos s"
    using assms(6) by (auto simp add: current_merge_record)
  show "store (merge_record name info cur s) x = store s x" if "x \<noteq> next_ref s"
  proof (cases cur)
    case True
    then obtain a ra where a: "current_search_repos s name = Some a" "store s a = Some ra"
      "str_in tag (found_by ra)" using assms(6) by blast
    have "a \<noteq> next_ref s" using wf_current [OF assms(1) a(1)] by simp
    moreover have "b \<noteq> next_ref s" using wf_repos [OF assms(1,3)] by simp
    ultimately show ?thesis using that True a assms(2-5)
      by (auto simp add: store_merge_record store1_def append_found_by_apply merge_found_by_noop)
  next
    case False
    have "b \<noteq> next_ref s" using wf_repos [OF assms(1,3)] by simp
    then show ?thesis using that False assms(2-5)
      by (auto simp add: store_merge_record store1_def append_found_by_apply merge_found_by_noop)
  qed
qed

lemma merge_record_noop_records:
  assumes "wf s" "found_by info = tag"
    and "repos s name = Some b" "store s b = Some r" "str_in tag (found_by r)"
    and "cur \<longrightarrow> (\<exists>a ra. current_search_repos s name = Some a \<and> store s a = Some ra \<and>
                    str_in tag (found_by ra))"
  shows "global_record (merge_record name info cur s) n = global_record s n"
    and "batch_record (merge_record name info cur s) n = batch_record s n"
proof -
  note m = merge_record_noop [OF assms]
  show "global_record (merge_record name info cur s) n = global_record s n"
  proof (cases "repos s n")
    case None
    then show ?thesis by (simp add: global_record_def m(1))
  next
    case (Some x)
    then have "x \<noteq> next_ref s" using wf_repos [OF assms(1) Some] by simp
    then show ?thesis using Some by (simp add: global_record_def m(1) m(3))
  qed
  show "batch_record (merge_record name info cur s) n = batch_record s n"
  proof (cases "current_search_repos s n")
    case None
    then show ?thesis by (simp add: batch_record_def m(2))
  next
    case (Some x)
    then have "x \<noteq> next_ref s" using wf_current [OF assms(1) Some] by simp
    then show ?thesis using Some by (simp add: batch_record_def m(2) m(3))
  qed
qed

lemma after_merge_global:
  assumes "wf s" "found_by info = tag"
  shows "\<exists>b r. repos (merge_record name info cur s) name = Some b \<and>
           store (merge_record name info cur s) b = Some r \<and> str_in tag (found_by r) \<and>
           found_by r = (case global_record s name of None \<Rightarrow> tag
                         | Some r0 \<Rightarrow> merge_found_by (found_by r0) tag)"
proof (cases "repos s name")
  case None
  have "global_record (merge_record name info cur s) name = Some info"
    using global_absent [OF assms(1) None] .
  then show ?thesis using assms(2) None
    by (auto simp: global_record_def str_in_refl split: option.splits)
next
  case (Some b)
  then obtain r0 where r0: "store s b = Some r0" using wf_repos [OF assms(1) Some] by blast
  have "global_record (merge_record name info cur s) name
        = Some (r0\<lparr>found_by := merge_found_by (found_by r0) tag\<rparr>)"
    using global_present [OF assms(1) Some r0, of info cur] assms(2) by simp
  then show ?thesis using Some r0
    by (auto simp: global_record_def str_in_merge split: option.splits)
qed

lemma after_merge_batch:
  assumes "wf s" "found_by info = tag"
  shows "\<exists>a r. current_search_repos (merge_record name info True s) name = Some a \<and>
           store (merge_record name info True s) a = Some r \<and> str_in tag (found_by r)"
proof (cases "current_search_repos s name")
  case None
  have "batch_record (merge_record name info True s) name = Some info"
    using batch_absent [OF assms(1) None] .
  then show ?thesis using assms(2)
    by (auto simp: batch_record_def str_in_refl split: option.splits)
next
  case (Some a)
  then obtain r0 where r0: "store s a = Some r0" using wf_current [OF assms(1) Some] by blast
  have "batch_record (merge_record name info True s) name
        = Some (r0\<lparr>found_by := merge_found_by (found_by r0) tag\<rparr>)"
    using batch_present [OF assms(1) Some r0, of info] assms(2) by simp
  then show ?thesis
    by (auto simp: batch_record_def str_in_merge split: option.splits)
qed

lemma count_list_distinct: "distinct xs \<Longrightarrow> x \<in> set xs \<Longrightarrow> count_list xs x = 1"
  by (induction xs) auto

lemma count_list_notin: "x \<notin> set xs \<Longrightarrow> count_list xs x = 0"
  by (induction xs) auto

lemma count_fresh_tag:
  assumes "plain_tag tag"
  shows "count_list (provenance tag) tag = 1"
    and "\<not> str_in tag fb \<Longrightarrow> count_list (provenance (merge_found_by fb tag)) tag = 1"
proof -
  have "CHR '','' \<notin> set tag" using assms by (simp add: plain_tag_def)
  then have p: "provenance tag = [tag]" by (rule provenance_single)
  then show "count_list (provenance tag) tag = 1" by simp
  assume n: "\<not> str_in tag fb"
  then have "tag \<notin> set (provenance fb)" using provenance_sublist [of tag fb] by (auto simp: str_in_def)
  then have "count_list (provenance fb) tag = 0" by (rule count_list_notin)
  then show "count_list (provenance (merge_found_by fb tag)) tag = 1"
    using n p by (simp add: merge_found_by_def provenance_append_Cons)
qed


text \<open>
  C3, as the code has it. After a merge of an item with a tag, a second merge of the same
  item with the same tag succeeds and changes no record of either scope, so the tag is
  never appended twice; the global record of the name (and the batch record, with
  \<open>is_current_search\<close>) contains the tag as a substring. The tag is one of the provenance
  tags, exactly once, when it has no comma and no leading blank and was not already
  contained in the record before the first merge, and also when all tags merged under
  the name are separable.
\<close>

theorem repeated_merge_idempotent:
  assumes "run ops init_searcher = Inr s"
    and "add_repository d tag cur s = Inr s1"
    and "repo_name_of d = Some name"
  shows "\<exists>s2 r. add_repository d tag cur s1 = Inr s2 \<and>
           (\<forall>n. global_record s2 n = global_record s1 n \<and> batch_record s2 n = batch_record s1 n) \<and>
           global_record s2 name = Some r \<and> str_in tag (found_by r) \<and>
           (cur \<longrightarrow> (\<exists>rb. batch_record s2 name = Some rb \<and> str_in tag (found_by rb))) \<and>
           (plain_tag tag \<and> (\<forall>r0. global_record s name = Some r0 \<longrightarrow> \<not> str_in tag (found_by r0))
              \<longrightarrow> count_list (provenance (found_by r)) tag = 1) \<and>
           (separable (set (tags_applied name (ops @ [Add d tag cur, Add d tag cur])))
              \<longrightarrow> count_list (provenance (found_by r)) tag = 1)"
proof -
  have w: "wf s" using wf_run [OF wf_init assms(1)] .
  obtain repo n info where *: "select_repo d = Inr repo" "build_repo_info repo tag = Inr (n, info)"
    "hashable n" "s1 = merge_record n info cur s"
    using add_repository_Inr [OF assms(2)] by blast
  from build_repo_info_Inr [OF *(2)] have gi: "getitem repo ''full_name'' = Inr n"
    and fi: "found_by info = tag" by simp_all
  have n: "n = name" using gi *(1) assms(3) by (simp add: repo_name_of_def)
  have s1: "s1 = merge_record name info cur s" using *(4) n by simp
  have w1: "wf s1" unfolding s1 by (rule wf_merge_record [OF w])
  define s2 where "s2 = merge_record name info cur s1"
  have a2: "add_repository d tag cur s1 = Inr s2"
    using * n by (simp add: add_repository_def s2_def)
  obtain b r where g: "repos s1 name = Some b" "store s1 b = Some r" "str_in tag (found_by r)"
    "found_by r = (case global_record s name of None \<Rightarrow> tag
                   | Some r0 \<Rightarrow> merge_found_by (found_by r0) tag)"
    using after_merge_global [OF w fi, of name cur] unfolding s1 by blast
  have c: "cur \<longrightarrow> (\<exists>a ra. current_search_repos s1 name = Some a \<and> store s1 a = Some ra \<and>
                    str_in tag (found_by ra))"
    using after_merge_batch [OF w fi, of name] unfolding s1 by (cases cur) auto
  note same = merge_record_noop_records [OF w1 fi g(1-3) c, folded s2_def]
  have g1: "global_record s1 name = Some r" using g(1,2) by (simp add: global_record_def)
  have 1: "\<forall>n. global_record s2 n = global_record s1 n \<and> batch_record s2 n = batch_record s1 n"
    using same by simp
  have 2: "global_record s2 name = Some r" using same(1) g1 by simp
  have 3: "cur \<longrightarrow> (\<exists>rb. batch_record s2 name = Some rb \<and> str_in tag (found_by rb))"
    using c same(2) [of name] by (auto simp: batch_record_def)
  have 4: "count_list (provenance (found_by r)) tag = 1"
    if "plain_tag tag" "\<forall>r0. global_record s name = Some r0 \<longrightarrow> \<not> str_in tag (found_by r0)"
    using that g(4) count_fresh_tag [of tag]
    by (cases "global_record s name") auto
  have 5: "count_list (provenance (found_by r)) tag = 1"
    if sep: "separable (set (tags_applied name (ops @ [Add d tag cur, Add d tag cur])))"
  proof -
    let ?ops2 = "ops @ [Add d tag cur, Add d tag cur]"
    have r2: "run ?ops2 init_searcher = Inr s2"
      using assms(1,2) a2 by (simp add: run_append)
    have e0: "global_record init_searcher name = None"
      by (simp add: global_record_def init_searcher_def)
    have "Some (found_by r) = fold_tags None (tags_applied name ?ops2)"
      using global_found_by_run [OF wf_init r2, of name] 2 e0 by simp
    then obtain t ts where ts: "tags_applied name ?ops2 = t # ts"
      "found_by r = foldl merge_found_by t ts"
      using fold_tags_None_Some [of "tags_applied name ?ops2" "found_by r"] by auto
    have "set (provenance (found_by r)) = set (tags_applied name ?ops2) \<and>
          distinct (provenance (found_by r))"
      using separable_foldl_first [of "set (tags_applied name ?ops2)" t ts] sep ts by simp
    moreover have "tag \<in> set (tags_applied name ?ops2)"
      using assms(3) by (simp add: tags_applied_append)
    ultimately show ?thesis by (simp add: count_list_distinct)
  qed
  have "add_repository d tag cur s1 = Inr s2 \<and>
        (\<forall>n. global_record s2 n = global_record s1 n \<and> batch_record s2 n = batch_record s1 n) \<and>
        global_record s2 name = Some r \<and> str_in tag (found_by r) \<and>
        (cur \<longrightarrow> (\<exists>rb. batch_record s2 name = Some rb \<and> str_in tag (found_by rb))) \<and>
        (plain_tag tag \<and> (\<forall>r0. global_record s name = Some r0 \<longrightarrow> \<not> str_in tag (found_by r0))
           \<longrightarrow> count_list (provenance (found_by r)) tag = 1) \<and>
        (separable (set (tags_applied name (ops @ [Add d tag cur, Add d tag cur])))
           \<longrightarrow> count_list (provenance (found_by r)) tag = 1)"
    using a2 1 2 g(3) 3 4 5 by (intro conjI impI) simp_all
  then show ?thesis by (intro exI)
qed

theorem repeated_merge_idempotent_witness:
  "\<exists>s2 r. add_repository (repo_obj ''acme/widget'' ''u'' ''d'') ''commit_search: x'' True
            (projr (run [Add (repo_obj ''acme/widget'' ''u'' ''d'') ''code_search: x'' True,
                         Add (repo_obj ''acme/widget'' ''u'' ''d'') ''commit_search: x'' True]
                      init_searcher)) = Inr s2 \<and>
          global_record s2 (PStr ''acme/widget'') = Some r \<and>
          str_in ''commit_search: x'' (found_by r) \<and>
          count_list (provenance (found_by r)) ''commit_search: x'' = 1"
proof -
  let ?n = "PStr ''acme/widget''"
  let ?d = "repo_obj ''acme/widget'' ''u'' ''d''"
  let ?ops = "[Add ?d ''code_search: x'' True]"
  obtain s where s: "run ?ops init_searcher = Inr s"
    by (simp add: aggregator_defs)
  obtain s1 where s1: "add_repository ?d ''commit_search: x'' True s = Inr s1"
    by (simp add: aggregator_defs)
  have n: "repo_name_of ?d = Some ?n"
    by (simp add: repo_name_of_def select_repo_def repo_obj_def getitem_def)
  have t: "tags_applied ?n (?ops @ [Add ?d ''commit_search: x'' True, Add ?d ''commit_search: x'' True])
           = [''code_search: x'', ''commit_search: x'', ''commit_search: x'']"
    by (simp add: repo_name_of_def select_repo_def repo_obj_def getitem_def)
  have sep: "separable (set (tags_applied ?n
      (?ops @ [Add ?d ''commit_search: x'' True, Add ?d ''commit_search: x'' True])))"
    unfolding t by (simp add: separable_def plain_tag_def sublist_Cons_right)
  have r1: "run (?ops @ [Add ?d ''commit_search: x'' True]) init_searcher = Inr s1"
    using s s1 by (simp only: run_append sum.case run.simps step.simps)
  from repeated_merge_idempotent [OF s s1 n] sep obtain s2 r where
    "add_repository ?d ''commit_search: x'' True s1 = Inr s2"
    "global_record s2 ?n = Some r" "str_in ''commit_search: x'' (found_by r)"
    "count_list (provenance (found_by r)) ''commit_search: x'' = 1"
    by blast
  then show ?thesis using r1 by auto
qed

text \<open>
  C3 as stated fails: merging \<open>"file: a"\<close> twice into a record found by \<open>"file: a/b"\<close>
  leaves the provenance without the tag \<open>"file: a"\<close>.
\<close>

theorem tag_exactly_once_counterexample:
  "records_after [Add (repo_obj ''acme/widget'' ''u'' ''d'') ''file: a/b'' True,
                  Add (repo_obj ''acme/widget'' ''u'' ''d'') ''file: a'' True,
                  Add (repo_obj ''acme/widget'' ''u'' ''d'') ''file: a'' True] (PStr ''acme/widget'')
   = Inr (Some \<lparr>url = PStr ''u'', description = PStr ''d'', found_by = ''file: a/b''\<rparr>,
          Some \<lparr>url = PStr ''u'', description = PStr ''d'', found_by = ''file: a/b''\<rparr>) \<and>
   count_list (provenance ''file: a/b'') ''file: a'' = 0"
  by (simp add: aggregator_defs sublist_Cons_right provenance_def str_split_def)

subsection \<open>The batch scope within the global scope\<close>

lemma batch_untracked:
  assumes "wf s" "current_search_repos s n = Some a" "store s a = Some rb"
  shows "\<exists>r'. batch_record (merge_record n info False s) n = Some r' \<and>
           (found_by r' = found_by rb \<or> found_by r' = merge_found_by (found_by rb) (found_by info))"
proof -
  have "a \<noteq> next_ref s" using wf_current [OF assms(1,2)] by simp
  from store_merge_record_Some [OF assms(3) this, of n info False]
  show ?thesis using assms(2) by (auto simp: batch_record_def current_merge_record)
qed

lemma batch_untracked_None:
  "current_search_repos s n = None \<Longrightarrow> batch_record (merge_record n info False s) n = None"
  by (simp add: batch_record_def current_merge_record)

lemma scopes_related_merge:
  assumes w: "wf s" and fi: "found_by info = t"
    and inv: "scopes_related P R s" and cl: "tag_closed P R t"
  shows "scopes_related P R (merge_record n info cur s)"
proof -
  let ?s = "merge_record n info cur s"
  have ginv: "P (found_by rg)" if "global_record s m = Some rg" for m rg
    using inv that unfolding scopes_related_def by blast
  have binv: "\<exists>rg. global_record s m = Some rg \<and> R (found_by rb) (found_by rg)"
    if "batch_record s m = Some rb" for m rb
    using inv that unfolding scopes_related_def by blast
  have Pt: "P t" and Rtt: "R t t" using cl unfolding tag_closed_def by blast+
  have Pm: "P (merge_found_by g t)" and Rnew: "R t (merge_found_by g t)" if "P g" for g
    using cl that unfolding tag_closed_def by blast+
  have Rboth: "R (merge_found_by b t) (merge_found_by g t)" and Rglob: "R b (merge_found_by g t)"
    if "R b g" "P g" for b g
    using cl that unfolding tag_closed_def by blast+
  \<comment> \<open>the global record of the merged name\<close>
  have gn: "\<exists>rg. global_record ?s n = Some rg \<and> P (found_by rg) \<and>
              (case global_record s n of None \<Rightarrow> found_by rg = t
               | Some r0 \<Rightarrow> found_by rg = merge_found_by (found_by r0) t)"
  proof (cases "repos s n")
    case None
    then have "global_record s n = None" by (simp add: global_record_def)
    then show ?thesis using global_absent [OF w None, of info cur] fi Pt by simp
  next
    case (Some b)
    then obtain r0 where r0: "store s b = Some r0" using wf_repos [OF w Some] by blast
    then have g0: "global_record s n = Some r0" using Some by (simp add: global_record_def)
    show ?thesis using global_present [OF w Some r0, of info cur] fi g0 Pm [OF ginv [OF g0]]
      by simp
  qed
  have G: "P (found_by rg)" if "global_record ?s m = Some rg" for m rg
  proof (cases "m = n")
    case True
    then show ?thesis using gn that by auto
  next
    case False
    then show ?thesis using other_global [OF w False, of info cur] that ginv by simp
  qed
  have B: "\<exists>rg. global_record ?s m = Some rg \<and> R (found_by rb) (found_by rg)"
    if b: "batch_record ?s m = Some rb" for m rb
  proof (cases "m = n")
    case False
    then show ?thesis
      using other_global [OF w False, of info cur] other_batch [OF w False, of info cur] b binv
      by simp
  next
    case True
    obtain rg where rg: "global_record ?s n = Some rg" "P (found_by rg)"
      "case global_record s n of None \<Rightarrow> found_by rg = t
       | Some r0 \<Rightarrow> found_by rg = merge_found_by (found_by r0) t"
      using gn by blast
    show ?thesis
    proof (cases "current_search_repos s n")
      case None
      then have bn: "batch_record s n = None" by (simp add: batch_record_def)
      show ?thesis
      proof (cases cur)
        case False
        then show ?thesis using batch_untracked_None [OF None, of info] b True by simp
      next
        case cur: True
        have "batch_record ?s n = Some info" using batch_absent [OF w None, of info] cur by simp
        then have fb: "found_by rb = t" using b True fi by simp
        show ?thesis
        proof (cases "global_record s n")
          case None
          then show ?thesis using rg fb Rtt True by simp
        next
          case (Some r0)
          then show ?thesis using rg fb Rnew [OF ginv [OF Some]] True by simp
        qed
      qed
    next
      case (Some a)
      then obtain r1 where r1: "store s a = Some r1" using wf_current [OF w Some] by blast
      then have b0: "batch_record s n = Some r1" using Some by (simp add: batch_record_def)
      obtain r0 where r0: "global_record s n = Some r0" "R (found_by r1) (found_by r0)"
        using binv [OF b0] by blast
      have P0: "P (found_by r0)" using ginv [OF r0(1)] .
      have fg: "found_by rg = merge_found_by (found_by r0) t" using rg(3) r0(1) by simp
      have "found_by rb = found_by r1 \<or> found_by rb = merge_found_by (found_by r1) t"
      proof (cases cur)
        case True
        then show ?thesis using batch_present [OF w Some r1, of info] b \<open>m = n\<close> fi by auto
      next
        case False
        then show ?thesis using batch_untracked [OF w Some r1, of info] b \<open>m = n\<close> fi by auto
      qed
      then show ?thesis using rg(1) fg Rboth [OF r0(2) P0] Rglob [OF r0(2) P0] True by auto
    qed
  qed
  show ?thesis unfolding scopes_related_def using G B by blast
qed

lemma global_record_clear [simp]: "global_record (clear_current s) n = global_record s n"
  by (simp add: clear_current_def global_record_def split: option.splits)

lemma batch_record_clear [simp]: "batch_record (clear_current s) n = None"
  by (simp add: clear_current_def batch_record_def)

lemma scopes_related_clear: "scopes_related P R s \<Longrightarrow> scopes_related P R (clear_current s)"
  by (simp add: scopes_related_def)

lemma scopes_related_init: "scopes_related P R init_searcher"
  by (simp add: scopes_related_def init_searcher_def global_record_def batch_record_def)

lemma scopes_related_run:
  assumes "wf s" "scopes_related P R s" "run ops s = Inr s'"
    and "\<forall>t \<in> set (all_tags ops). tag_closed P R t"
  shows "scopes_related P R s'"
  using assms
proof (induction ops arbitrary: s)
  case Nil
  then show ?case by simp
next
  case (Cons x xs)
  from Cons.prems(3) obtain s1 where s1: "step x s = Inr s1" "run xs s1 = Inr s'"
    by (auto split: sum.splits)
  have w1: "wf s1" using wf_step [OF Cons.prems(1) s1(1)] .
  have "scopes_related P R s1 \<and> (\<forall>t \<in> set (all_tags xs). tag_closed P R t)"
  proof (cases x)
    case Clear
    then show ?thesis using s1(1) Cons.prems(2,4) by (auto simp: scopes_related_clear)
  next
    case (Add d tag cur)
    then obtain n info where n: "found_by info = tag" "s1 = merge_record n info cur s"
      using s1(1) add_repository_named by fastforce
    have "tag_closed P R tag" using Cons.prems(4) Add by simp
    then show ?thesis
      using scopes_related_merge [OF Cons.prems(1) n(1) Cons.prems(2)] n(2) Cons.prems(4) Add
      by simp
  qed
  then show ?case using Cons.IH [OF w1 _ s1(2)] by blast
qed


lemma tag_closed_substring:
  "tag_closed (\<lambda>g. True) (\<lambda>b g. \<forall>x \<in> set (provenance b). str_in x g) t"
proof -
  have 1: "str_in x (merge_found_by g t)" if "x \<in> set (provenance t)" for x g
  proof -
    have "sublist x t" using that by (rule provenance_sublist)
    moreover have "sublist t (merge_found_by g t)" using str_in_merge [of t g] by (simp add: str_in_def)
    ultimately show ?thesis unfolding str_in_def using sublist_order.order_trans by blast
  qed
  have 2: "str_in x (merge_found_by g t)" if "str_in x g" for x g
    using str_in_mono [OF that prefix_merge_found_by] .
  have 3: "\<forall>x \<in> set (provenance (merge_found_by b t)). str_in x (merge_found_by g t)"
    if "\<forall>x \<in> set (provenance b). str_in x g" for b g
    using provenance_merge_subset [of b t] that 1 2 by blast
  show ?thesis unfolding tag_closed_def
    using 1 2 3 by (auto simp: str_in_def provenance_sublist)
qed

lemma tag_closed_separable:
  assumes "separable T" "t \<in> T"
  shows "tag_closed (\<lambda>g. set (provenance g) \<subseteq> T)
           (\<lambda>b g. set (provenance b) \<subseteq> set (provenance g)) t"
proof -
  have "CHR '','' \<notin> set t" using assms by (simp add: separable_def plain_tag_def)
  then have p: "provenance t = [t]" by (rule provenance_single)
  have m: "set (provenance (merge_found_by g t)) = insert t (set (provenance g))"
    if "set (provenance g) \<subseteq> T" for g
    using separable_merge [OF assms that] by auto
  have 1: "set (provenance (merge_found_by b t)) \<subseteq> set (provenance (merge_found_by g t)) \<and>
           set (provenance b) \<subseteq> set (provenance (merge_found_by g t))"
    if "set (provenance b) \<subseteq> set (provenance g)" "set (provenance g) \<subseteq> T" for b g
  proof -
    have "set (provenance b) \<subseteq> T" using that by blast
    then show ?thesis using m [of b] m [OF that(2)] that(1) by auto
  qed
  show ?thesis unfolding tag_closed_def using p m 1 assms(2) by auto
qed

text \<open>
  C4, as the code has it. At every point of a run (any sequence of merges, with or
  without \<open>is_current_search\<close>, and batch clears), a name of the batch scope is a name of
  the global scope, and every provenance tag of the batch record is contained, as a
  substring, in the \<open>found_by\<close> string of the global record. The provenance tags of the
  batch record are a subset of those of the global record when the tags of the run are
  separable.
\<close>

theorem batch_within_global:
  assumes "run ops init_searcher = Inr s"
    and "current_search_repos s name = Some a"
  shows "\<exists>b rb rg. repos s name = Some b \<and> batch_record s name = Some rb \<and>
           global_record s name = Some rg \<and>
           (\<forall>x \<in> set (provenance (found_by rb)). str_in x (found_by rg)) \<and>
           (separable (set (all_tags ops)) \<longrightarrow>
              set (provenance (found_by rb)) \<subseteq> set (provenance (found_by rg)))"
proof -
  have w: "wf s" using wf_run [OF wf_init assms(1)] .
  obtain b where b: "repos s name = Some b" using wf_subset [OF w assms(2)] by blast
  obtain rb where rb: "store s a = Some rb" using wf_current [OF w assms(2)] by blast
  then have brec: "batch_record s name = Some rb" using assms(2) by (simp add: batch_record_def)
  have "scopes_related (\<lambda>g. True) (\<lambda>b g. \<forall>x \<in> set (provenance b). str_in x g) s"
    using scopes_related_run [OF wf_init scopes_related_init assms(1)] tag_closed_substring
    by blast
  then obtain rg where rg: "global_record s name = Some rg"
    "\<forall>x \<in> set (provenance (found_by rb)). str_in x (found_by rg)"
    using brec unfolding scopes_related_def by blast
  have "set (provenance (found_by rb)) \<subseteq> set (provenance (found_by rg))"
    if sep: "separable (set (all_tags ops))"
  proof -
    have "scopes_related (\<lambda>g. set (provenance g) \<subseteq> set (all_tags ops))
            (\<lambda>b g. set (provenance b) \<subseteq> set (provenance g)) s"
      using scopes_related_run [OF wf_init scopes_related_init assms(1)]
        tag_closed_separable [OF sep]
      by blast
    then show ?thesis using brec rg(1) unfolding scopes_related_def by fastforce
  qed
  then show ?thesis using b brec rg by blast
qed

theorem batch_within_global_witness:
  "\<exists>rb rg. records_after [Add (repo_obj ''acme/widget'' ''u'' ''d'') ''code_search: x'' True, Clear,
                          Add (repo_obj ''acme/widget'' ''u'' ''d'') ''commit_search: x'' True]
             (PStr ''acme/widget'') = Inr (Some rb, Some rg) \<and>
           set (provenance (found_by rb)) \<subseteq> set (provenance (found_by rg))"
proof -
  let ?n = "PStr ''acme/widget''"
  let ?d = "repo_obj ''acme/widget'' ''u'' ''d''"
  let ?ops = "[Add ?d ''code_search: x'' True, Clear, Add ?d ''commit_search: x'' True]"
  obtain s where s: "run ?ops init_searcher = Inr s"
    by (simp add: aggregator_defs)
  obtain a where a: "current_search_repos s ?n = Some a"
    using s by (auto simp add: aggregator_defs)
  have sep: "separable (set (all_tags ?ops))"
    by (simp add: separable_def plain_tag_def sublist_Cons_right)
  from batch_within_global [OF s a] sep obtain rb rg where
    "batch_record s ?n = Some rb" "global_record s ?n = Some rg"
    "set (provenance (found_by rb)) \<subseteq> set (provenance (found_by rg))"
    by blast
  then show ?thesis using s by (auto simp: records_after_def)
qed

text \<open>
  C4 as stated fails: after a batch clear, a tag that occurs inside a tag of the global
  record starts a new batch record and is not added to the global one.
\<close>

theorem batch_superset_counterexample:
  "records_after [Add (repo_obj ''acme/widget'' ''u'' ''d'') ''file: a/b'' True, Clear,
                  Add (repo_obj ''acme/widget'' ''u'' ''d'') ''file: a'' True] (PStr ''acme/widget'')
   = Inr (Some \<lparr>url = PStr ''u'', description = PStr ''d'', found_by = ''file: a''\<rparr>,
          Some \<lparr>url = PStr ''u'', description = PStr ''d'', found_by = ''file: a/b''\<rparr>) \<and>
   \<not> set (provenance ''file: a'') \<subseteq> set (provenance ''file: a/b'')"
  by (simp add: aggregator_defs sublist_Cons_right provenance_def str_split_def)

section \<open>Properties of the issue search adapter\<close>

lemma add_repository_issue_repo_info:
  "add_repository (issue_repo_info owner repo_name) tag cur s =
     Inr (merge_record (PStr (owner @ ''/'' @ repo_name))
            \<lparr>url = PStr (''https://github.com/'' @ owner @ ''/'' @ repo_name),
             description = PStr '''', found_by = tag\<rparr> cur s)"
  by (simp add: add_repository_def select_repo_def build_repo_info_def getitem_def
      get_default_def hashable_def issue_repo_info_def)

text \<open>
  C7. For an item of the issue search whose \<open>repository_url\<close> splits at \<open>/\<close> into fewer
  than five pieces, the item is skipped: a warning is printed, both scopes stay as they
  are and nothing is raised. With five pieces or more, the repository merged is named
  by the last two pieces joined with a slash, its url is \<open>https://github.com/\<close> followed
  by that name, and nothing is raised.
\<close>

theorem issue_url_parsing:
  assumes "getitem item ''repository_url'' = Inr (PStr repo_url)"
    and "parts = str_split repo_url ''/''"
  shows "(length parts < 5 \<longrightarrow>
            add_issue_item item query start_date end_date cur (s, out) =
              Inr (s, out @ [''Warning: Invalid repository URL format: '' @ repo_url])) \<and>
         (length parts \<ge> 5 \<longrightarrow>
            add_issue_item item query start_date end_date cur (s, out) =
              Inr (merge_record (PStr (parts ! (length parts - 2) @ ''/'' @ last parts))
                     \<lparr>url = PStr (''https://github.com/'' @ parts ! (length parts - 2) @ ''/'' @
                                  last parts),
                      description = PStr '''',
                      found_by = issue_tag query start_date end_date\<rparr> cur s, out))"
proof -
  have "parts ! (length parts - 1) = last parts" if "length parts \<ge> 5"
    using that by (cases parts rule: rev_cases) auto
  then show ?thesis using assms
    by (auto simp: add_issue_item_def add_repository_issue_repo_info Let_def)
qed

theorem issue_url_parsing_witness:
  "add_issue_item (PDict [(''repository_url'', PStr ''repos/acme/widget'')])
     ''x'' ''2024-02-01'' ''2024-02-29'' True (init_searcher, [])
   = Inr (init_searcher, [''Warning: Invalid repository URL format: repos/acme/widget'']) \<and>
   add_issue_item (PDict [(''repository_url'', PStr ''https://api.github.com/repos/acme/widget'')])
     ''x'' ''2024-02-01'' ''2024-02-29'' True (init_searcher, [])
   = Inr (merge_record (PStr ''acme/widget'')
            \<lparr>url = PStr ''https://github.com/acme/widget'', description = PStr '''',
             found_by = ''issue_search: x (2024-02-01 to 2024-02-29)''\<rparr> True init_searcher, [])"
proof -
  have 1: "str_split ''repos/acme/widget'' ''/'' = [''repos'', ''acme'', ''widget'']"
    by (simp add: str_split_def)
  have 2: "str_split ''https://api.github.com/repos/acme/widget'' ''/''
           = [''https:'', '''', ''api.github.com'', ''repos'', ''acme'', ''widget'']"
    by (simp add: str_split_def)
  have g: "getitem (PDict [(''repository_url'', PStr u)]) ''repository_url'' = Inr (PStr u)" for u
    by (simp add: getitem_def)
  show ?thesis
    using issue_url_parsing [OF g 1 [symmetric],
        of "''x''" "''2024-02-01''" "''2024-02-29''" True init_searcher "[]"]
      issue_url_parsing [OF g 2 [symmetric],
        of "''x''" "''2024-02-01''" "''2024-02-29''" True init_searcher "[]"]
    by (simp add: issue_tag_def)
qed

section \<open>Properties of the time windows\<close>

lemmas date_defs = parse_date_def str_split_def digit_of_def valid_date_def days_in_month_def
  leap_year_def day_number_def days_before_year_def days_before_month_def window_days_def

lemma contiguous_Cons_less:
  "contiguous (w # ws) \<Longrightarrow> v \<in> set ws \<Longrightarrow> snd w < fst v"
proof (induction ws arbitrary: w)
  case Nil
  then show ?case by simp
next
  case (Cons u us)
  show ?case
  proof (cases "v = u")
    case True
    then show ?thesis using Cons.prems(1) by simp
  next
    case False
    then have "v \<in> set us" using Cons.prems(2) by simp
    moreover have c: "contiguous (u # us)" using Cons.prems(1) by simp
    ultimately have "snd u < fst v" by (rule Cons.IH [rotated])
    moreover have "fst u \<le> snd u" using c by (cases us) simp_all
    ultimately show ?thesis using Cons.prems(1) by simp
  qed
qed

lemma contiguous_tail: "contiguous (w # ws) \<Longrightarrow> contiguous ws"
  by (cases ws) simp_all

lemma contiguous_sorted: "contiguous ws \<Longrightarrow> sorted_wrt (\<lambda>w v. snd w < fst v) ws"
proof (induction ws)
  case Nil
  then show ?case by simp
next
  case (Cons w ws)
  then show ?case using contiguous_Cons_less [of w ws] contiguous_tail [of w ws] by auto
qed

lemma contiguous_hd_last: "contiguous (w # ws) \<Longrightarrow> fst w \<le> snd (last (w # ws))"
proof (induction ws arbitrary: w)
  case Nil
  then show ?case by simp
next
  case (Cons u us)
  have "contiguous (u # us)" using Cons.prems by simp
  then have "fst u \<le> snd (last (u # us))" by (rule Cons.IH)
  moreover have "fst w \<le> fst u" using Cons.prems by simp
  ultimately show ?case by simp
qed

lemma contiguous_union:
  "contiguous (w # ws) \<Longrightarrow> (\<Union>v \<in> set (w # ws). {fst v..snd v}) = {fst w..snd (last (w # ws))}"
proof (induction ws arbitrary: w)
  case Nil
  then show ?case by simp
next
  case (Cons u us)
  have ih: "(\<Union>v \<in> set (u # us). {fst v..snd v}) = {fst u..snd (last (u # us))}"
    using Cons.prems by (intro Cons.IH) simp
  have 1: "fst w \<le> snd w" and 2: "fst u = Suc (snd w)" using Cons.prems by simp_all
  have 3: "fst u \<le> snd (last (u # us))" using Cons.prems contiguous_hd_last [of u us] by simp
  have "(\<Union>v \<in> set (w # u # us). {fst v..snd v})
        = {fst w..snd w} \<union> (\<Union>v \<in> set (u # us). {fst v..snd v})" by simp
  also have "\<dots> = {fst w..snd w} \<union> {Suc (snd w)..snd (last (u # us))}"
    unfolding ih 2 ..
  also have "\<dots> = {fst w..snd (last (u # us))}" using 1 2 3 by auto
  finally show ?case by simp
qed

lemma days_before_month_Suc:
  "1 \<le> m \<Longrightarrow> days_before_month y (Suc m) = days_before_month y m + days_in_month y m"
  by (simp add: days_before_month_def)

lemma next_day_in_month: "day_number (y, m, Suc d) = Suc (day_number (y, m, d))"
  by (simp add: day_number_def)

lemma next_day_month_end:
  "1 \<le> m \<Longrightarrow> day_number (y, Suc m, 1) = Suc (day_number (y, m, days_in_month y m))"
  by (simp add: day_number_def days_before_month_Suc)

lemma days_in_year: "days_before_month y 13 = (if leap_year y then 366 else 365)"
proof -
  have "[1..<13] = [1, 2, 3, 4, 5, 6, 7, 8, 9, 10, 11, 12::nat]"
    by (simp add: upt_conv_Cons)
  then show ?thesis by (simp add: days_before_month_def days_in_month_def)
qed


lemma days_before_year_Suc:
  assumes "1 \<le> y"
  shows "days_before_year (Suc y) = days_before_year y + (if leap_year y then 366 else 365)"
proof -
  obtain k where k: "y = Suc k" using assms by (cases y) auto
  define A B C where "A = k div 4" and "B = k div 100" and "C = k div 400"
  have le: "B \<le> A" unfolding A_def B_def by (simp add: div_le_mono2)
  have old: "days_before_year y = 365 * k + A - B + C"
    by (simp add: days_before_year_def k A_def B_def C_def)
  have new: "days_before_year (Suc y) = 365 * Suc k + Suc k div 4 - Suc k div 100 + Suc k div 400"
    by (simp add: days_before_year_def k)
  have a: "Suc k div 4 = (if Suc k mod 4 = 0 then Suc A else A)"
    and b: "Suc k div 100 = (if Suc k mod 100 = 0 then Suc B else B)"
    and c: "Suc k div 400 = (if Suc k mod 400 = 0 then Suc C else C)"
    by (simp_all add: div_Suc A_def B_def C_def)
  have d: "n mod 4 = 0" if "n mod 100 = 0" for n :: nat
    using mod_mod_cancel [of 4 100 n] that by simp
  have e: "n mod 100 = 0" if "n mod 400 = 0" for n :: nat
    using mod_mod_cancel [of 100 400 n] that by simp
  show ?thesis
  proof (cases "Suc k mod 4 = 0")
    case False
    have n100: "Suc k mod 100 \<noteq> 0"
    proof
      assume "Suc k mod 100 = 0"
      from d [OF this] False show False by contradiction
    qed
    have n400: "Suc k mod 400 \<noteq> 0"
    proof
      assume "Suc k mod 400 = 0"
      from e [OF this] n100 show False by contradiction
    qed
    show ?thesis using False n100 n400 le unfolding new old a b c
      by (simp add: leap_year_def k)
  next
    case p4: True
    show ?thesis
    proof (cases "Suc k mod 100 = 0")
      case False
      have n400: "Suc k mod 400 \<noteq> 0"
      proof
        assume "Suc k mod 400 = 0"
        from e [OF this] False show False by contradiction
      qed
      show ?thesis using p4 False n400 le unfolding new old a b c
        by (simp add: leap_year_def k)
    next
      case p100: True
      show ?thesis
      proof (cases "Suc k mod 400 = 0")
        case True
        then show ?thesis using p4 p100 le unfolding new old a b c
          by (simp add: leap_year_def k)
      next
        case False
        then show ?thesis using p4 p100 le unfolding new old a b c
          by (simp add: leap_year_def k)
      qed
    qed
  qed
qed

lemma next_day_year_end:
  "1 \<le> y \<Longrightarrow> day_number (Suc y, 1, 1) = Suc (day_number (y, 12, 31))"
proof -
  assume y: "1 \<le> y"
  have "days_before_month y 13 = days_before_month y 12 + 31"
    using days_before_month_Suc [of 12 y] by (simp add: days_in_month_def)
  then have "days_before_month y 12 + 31 = (if leap_year y then 366 else 365)"
    using days_in_year [of y] by simp
  moreover have "days_before_month (Suc y) 1 = 0" by (simp add: days_before_month_def)
  ultimately show ?thesis using days_before_year_Suc [OF y]
    by (simp add: day_number_def)
qed


lemma windows_cover:
  assumes "all_window_days L = Some (w # ws)" "contiguous (w # ws)"
  shows "\<exists>ds. all_window_days L = Some ds \<and> contiguous ds \<and>
           sorted_wrt (\<lambda>w v. snd w < fst v) ds \<and>
           (\<Union>v \<in> set ds. {fst v..snd v}) = {fst w..snd (last (w # ws))}"
  using assms contiguous_sorted [OF assms(2)] contiguous_union [OF assms(2)] by blast

lemma issues_days:
  "all_window_days time_ranges_issues =
   Some [(738702, 738732), (738733, 738763), (738764, 738793), (738794, 738824),
         (738825, 738854), (738855, 738885), (738886, 738916), (738917, 738945),
         (738946, 738976), (738977, 739006), (739007, 739037), (739038, 739067),
         (739068, 739098), (739099, 739129), (739130, 739159), (739160, 739190),
         (739191, 739220), (739221, 739251), (739252, 739282), (739283, 739310),
         (739311, 739325), (739326, 739341), (739342, 739356), (739357, 739371)]"
  by (simp add: time_ranges_issues_def date_defs upt_conv_Cons)

lemma windsurf_days:
  "all_window_days time_ranges_descriptions_windsurf =
   Some [(739191, 739220), (739221, 739251), (739252, 739282), (739283, 739310),
         (739311, 739325), (739326, 739341), (739342, 739356), (739357, 739371)]"
  by (simp add: time_ranges_descriptions_windsurf_def date_defs upt_conv_Cons)

lemma trae_days:
  "all_window_days time_ranges_issues_trae = Some [(739068, 739251), (739252, 739432)]"
  by (simp add: time_ranges_issues_trae_def date_defs upt_conv_Cons)

text \<open>
  C9. Every date of the window lists is a day of the calendar. In each list the windows
  are non-empty, in chronological order and pairwise disjoint (each ends before the next
  starts), and each starts on the day after the previous one ends, so that together they
  cover exactly the days from the first start to the last end: 2023-07-01 to 2025-04-30
  for the issue search and the description search of \<open>firebase_repo_search.py\<close> (the same
  list twice), 2024-11-01 to 2025-04-30 for the description search of
  \<open>windsurf_repo_search_excel.py\<close>, 2024-07-01 to 2025-06-30 for the issue search of
  \<open>trae_repo_search.py\<close>. The window of February 2024 ends on 2024-02-29, the last day of
  that month, and the next window starts on the following day.
\<close>

theorem time_windows_cover:
  "(\<exists>ds. all_window_days time_ranges_issues = Some ds \<and> contiguous ds \<and>
         sorted_wrt (\<lambda>w v. snd w < fst v) ds \<and>
         (\<Union>v \<in> set ds. {fst v..snd v}) = {day_number (2023, 7, 1)..day_number (2025, 4, 30)}) \<and>
   time_ranges_descriptions = time_ranges_issues \<and>
   (\<exists>ds. all_window_days time_ranges_descriptions_windsurf = Some ds \<and> contiguous ds \<and>
         sorted_wrt (\<lambda>w v. snd w < fst v) ds \<and>
         (\<Union>v \<in> set ds. {fst v..snd v}) = {day_number (2024, 11, 1)..day_number (2025, 4, 30)}) \<and>
   (\<exists>ds. all_window_days time_ranges_issues_trae = Some ds \<and> contiguous ds \<and>
         sorted_wrt (\<lambda>w v. snd w < fst v) ds \<and>
         (\<Union>v \<in> set ds. {fst v..snd v}) = {day_number (2024, 7, 1)..day_number (2025, 6, 30)}) \<and>
   (''2024-02-01'', ''2024-02-29'') \<in> set time_ranges_issues \<and>
   parse_date ''2024-02-29'' = Some (2024, 2, 29) \<and> days_in_month 2024 2 = 29 \<and>
   day_number (2024, 3, 1) = Suc (day_number (2024, 2, 29))"
proof -
  have d: "day_number (2023, 7, 1) = 738702" "day_number (2025, 4, 30) = 739371"
    "day_number (2024, 11, 1) = 739191" "day_number (2024, 7, 1) = 739068"
    "day_number (2025, 6, 30) = 739432"
    by (simp_all add: date_defs upt_conv_Cons)
  have 1: "\<exists>ds. all_window_days time_ranges_issues = Some ds \<and> contiguous ds \<and>
         sorted_wrt (\<lambda>w v. snd w < fst v) ds \<and>
         (\<Union>v \<in> set ds. {fst v..snd v}) = {day_number (2023, 7, 1)..day_number (2025, 4, 30)}"
    using windows_cover [OF issues_days] unfolding d by simp
  have 2: "time_ranges_descriptions = time_ranges_issues"
    by (simp add: time_ranges_descriptions_def time_ranges_issues_def)
  have 3: "\<exists>ds. all_window_days time_ranges_descriptions_windsurf = Some ds \<and> contiguous ds \<and>
         sorted_wrt (\<lambda>w v. snd w < fst v) ds \<and>
         (\<Union>v \<in> set ds. {fst v..snd v}) = {day_number (2024, 11, 1)..day_number (2025, 4, 30)}"
    using windows_cover [OF windsurf_days] unfolding d by simp
  have 4: "\<exists>ds. all_window_days time_ranges_issues_trae = Some ds \<and> contiguous ds \<and>
         sorted_wrt (\<lambda>w v. snd w < fst v) ds \<and>
         (\<Union>v \<in> set ds. {fst v..snd v}) = {day_number (2024, 7, 1)..day_number (2025, 6, 30)}"
    using windows_cover [OF trae_days] unfolding d by simp
  have 5: "(''2024-02-01'', ''2024-02-29'') \<in> set time_ranges_issues"
    by (simp add: time_ranges_issues_def)
  have 6: "parse_date ''2024-02-29'' = Some (2024, 2, 29)" "days_in_month 2024 2 = 29"
    by (simp_all add: date_defs)
  have 7: "day_number (2024, 3, 1) = Suc (day_number (2024, 2, 29))"
    using next_day_month_end [of 2 2024] 6(2) by (simp add: eval_nat_numeral)
  show ?thesis using 1 2 3 4 5 6 7 by (intro conjI)
qed

section \<open>Properties of the request executor\<close>

text \<open>
  C6. When the response to a request is a success whose remaining quota is at most 1 (or
  whose quota header is missing, which counts as 0), or an HTTP error with status 403,
  the loop sleeps for \<open>max(reset - now, 0) + 10\<close> seconds and goes round again with the page
  number, the items and the total count unchanged: the next event after the sleep is the
  request for the same page, and the call goes on as it would from the state after the
  sleep. The 403 is not a \<open>break\<close>.
\<close>

theorem rate_limit_stall:
  assumes "ep (calls st) (clock st) (page st) = resp"
    and "(\<exists>tc items. resp = Success h tc items \<and> header_or_0 (rate_limit_remaining h) \<le> 1) \<or>
         resp = HttpError 403 h"
    and "w = max (header_or_0 (rate_limit_reset h) - clock st) 0 + 10"
    and "st' = st\<lparr>clock := clock st + w, calls := Suc (calls st),
                   trace := trace st @ [Request (page st), Sleep w]\<rparr>"
  shows "request_step resp (send st) = Again st' \<and>
         request_loop ep st = request_loop ep st' \<and>
         page st' = page st \<and> all_items st' = all_items st \<and> total_count st' = total_count st \<and>
         trace (send st') = trace st @ [Request (page st), Sleep w, Request (page st)]"
proof -
  have 1: "request_step resp (send st) = Again st'"
    using assms(2-4)
    by (auto simp: request_step_def check_rate_limit_def sleep_def send_def)
  have 2: "request_loop ep st = request_loop ep st'"
    by (subst request_loop.simps) (simp add: assms(1) 1)
  show ?thesis using 1 2 assms(4) by (simp add: send_def)
qed

theorem rate_limit_stall_witness:
  "run_request
     (\<lambda>c t p. if c = 0 then HttpError 403 \<lparr>rate_limit_remaining = Some 0, rate_limit_reset = Some 105\<rparr>
               else if c = 1 then Success \<lparr>rate_limit_remaining = Some 1, rate_limit_reset = Some 160\<rparr> 1 [''a'']
               else Success \<lparr>rate_limit_remaining = Some 29, rate_limit_reset = Some 160\<rparr> 1 [''a''])
     100
   = Some \<lparr>all_items = [''a''], total_count = 1, page = 1, clock = 170, calls = 3,
           trace = [Request 1, Sleep 15, Request 1, Sleep 55, Request 1]\<rparr>"
proof -
  let ?h0 = "\<lparr>rate_limit_remaining = Some 0, rate_limit_reset = Some 105\<rparr>"
  let ?h1 = "\<lparr>rate_limit_remaining = Some 1, rate_limit_reset = Some 160\<rparr>"
  let ?ep = "\<lambda>c t p. if c = (0::nat) then HttpError 403 ?h0
               else if c = 1 then Success ?h1 1 [''a'']
               else Success \<lparr>rate_limit_remaining = Some 29, rate_limit_reset = Some 160\<rparr> 1 [''a'']"
  let ?st = "\<lparr>all_items = [], total_count = 0, page = 1, clock = 100, calls = 0, trace = []\<rparr>
               :: string executor"
  let ?st1 = "\<lparr>all_items = [], total_count = 0, page = 1, clock = 115, calls = 1,
               trace = [Request 1, Sleep 15]\<rparr> :: string executor"
  let ?st2 = "\<lparr>all_items = [], total_count = 0, page = 1, clock = 170, calls = 2,
               trace = [Request 1, Sleep 15, Request 1, Sleep 55]\<rparr> :: string executor"
  have "request_loop ?ep ?st = request_loop ?ep ?st1"
    using rate_limit_stall [of ?ep ?st "HttpError 403 ?h0" ?h0 15 ?st1]
    by (simp add: header_or_0_def)
  also have "\<dots> = request_loop ?ep ?st2"
    using rate_limit_stall [of ?ep ?st1 "Success ?h1 1 [''a'']" ?h1 55 ?st2]
    by (simp add: header_or_0_def)
  also have "\<dots> = Some \<lparr>all_items = [''a''], total_count = 1, page = 1, clock = 170, calls = 3,
           trace = [Request 1, Sleep 15, Request 1, Sleep 55, Request 1]\<rparr>"
    by (subst request_loop.simps)
      (simp add: request_step_def check_rate_limit_def header_or_0_def send_def max_results_def)
  finally show ?thesis by (simp add: run_request_def)
qed

text \<open>
  A call does not return from an endpoint that never leaves quota, for example one that
  sends no rate limit headers: every response is taken as a stall and the page is asked
  for again.
\<close>

lemma no_quota_never_returns:
  assumes "\<And>c t p. \<exists>h tc items. ep c t p = Success h tc items \<and>
             header_or_0 (rate_limit_remaining h) \<le> 1"
  shows "request_loop ep st = None"
proof (cases "request_loop ep st")
  case None
  then show ?thesis .
next
  case (Some y)
  have "ep = ep \<longrightarrow> False"
  proof (rule request_loop.raw_induct [where P = "\<lambda>e s y. e = ep \<longrightarrow> False", OF _ Some])
    fix loop :: "'a endpoint \<Rightarrow> 'a executor \<Rightarrow> 'a executor option" and e s z
    assume ih: "\<And>e s z. loop e s = Some z \<Longrightarrow> e = ep \<longrightarrow> False"
      and step: "(case request_step (e (calls s) (clock s) (page s)) (send s) of
                    Again s' \<Rightarrow> loop e s' | Stop s' \<Rightarrow> Some s') = Some z"
    show "e = ep \<longrightarrow> False"
    proof
      assume e: "e = ep"
      obtain h tc items where r: "ep (calls s) (clock s) (page s) = Success h tc items"
        "header_or_0 (rate_limit_remaining h) \<le> 1"
        using assms by blast
      have "request_step (Success h tc items) (send s) =
              Again (sleep (max (header_or_0 (rate_limit_reset h) - clock (send s)) 0 + 10) (send s))"
        using r(2) by (simp add: request_step_def check_rate_limit_def)
      then obtain s1 where "loop ep s1 = Some z" using step e r(1) by simp
      then show False using ih by blast
    qed
  qed
  then show ?thesis by simp
qed

lemma ceil_div_le:
  fixes p P M :: nat
  assumes "0 < P" "1 \<le> p"
  shows "p \<le> (M + P - 1) div P \<longleftrightarrow> (p - 1) * P < M"
proof -
  have "p \<le> (M + P - 1) div P \<longleftrightarrow> p * P \<le> M + P - 1"
    using assms(1) by (rule less_eq_div_iff_mult_less_eq)
  also have "p * P = (p - 1) * P + P" using assms(2) by (cases p) simp_all
  also have "(p - 1) * P + P \<le> M + P - 1 \<longleftrightarrow> (p - 1) * P < M" using assms(1) by auto
  finally show ?thesis .
qed

lemma ceil_div_ge:
  fixes p P M :: nat
  assumes "0 < P"
  shows "(M + P - 1) div P \<le> p \<longleftrightarrow> M \<le> p * P"
proof -
  have "(M + P - 1) div P \<le> p \<longleftrightarrow> \<not> Suc p \<le> (M + P - 1) div P" by auto
  also have "\<dots> \<longleftrightarrow> \<not> (Suc p - 1) * P < M" using ceil_div_le [OF assms, of "Suc p" M] by simp
  also have "\<dots> \<longleftrightarrow> M \<le> p * P" by auto
  finally show ?thesis .
qed

lemma request_step_page:
  assumes "1 < header_or_0 (rate_limit_remaining h)" "items \<noteq> []"
  shows "request_step (Success h tc items) st =
         (if min (if page st = 1 then tc else total_count st) max_results
               \<le> int (length (all_items st @ items))
          then Stop (st\<lparr>total_count := (if page st = 1 then tc else total_count st),
                        all_items := all_items st @ items\<rparr>)
          else Again (st\<lparr>total_count := (if page st = 1 then tc else total_count st),
                         all_items := all_items st @ items, page := Suc (page st),
                         clock := clock st + 1, trace := trace st @ [Sleep 1]\<rparr>))"
  using assms by (simp add: request_step_def check_rate_limit_def Let_def sleep_def)

lemma page_step:
  assumes ep: "serves_pages ep corpus P" and P: "0 < P"
    and p: "page st = p" "1 \<le> p" "(p - 1) * P < min (length corpus) (nat max_results)"
    and items: "all_items st = take ((p - 1) * P) corpus"
    and total: "1 < p \<longrightarrow> total_count st = int (length corpus)"
  shows "request_step (ep (calls st) (clock st) (page st)) (send st) =
         (if min (length corpus) (nat max_results) \<le> p * P
          then Stop (st\<lparr>total_count := int (length corpus), all_items := take (p * P) corpus,
                        calls := Suc (calls st), trace := trace st @ [Request p]\<rparr>)
          else Again (st\<lparr>total_count := int (length corpus), all_items := take (p * P) corpus,
                         page := Suc p, clock := clock st + 1, calls := Suc (calls st),
                         trace := trace st @ [Request p, Sleep 1]\<rparr>))"
proof -
  let ?T = "length corpus"
  let ?pg = "take P (drop ((p - 1) * P) corpus)"
  obtain h tc where r: "ep (calls st) (clock st) p = Success h tc ?pg"
    "1 < header_or_0 (rate_limit_remaining h)" "p = 1 \<longrightarrow> tc = int ?T"
    using ep unfolding serves_pages_def by blast
  have lt: "(p - 1) * P < ?T" using p(3) by simp
  then have ne: "?pg \<noteq> []" using P by simp
  have "take ((p - 1) * P + P) corpus = take ((p - 1) * P) corpus @ ?pg" by (rule take_add)
  moreover have "(p - 1) * P + P = p * P" using p(2) by (cases p) simp_all
  ultimately have app: "all_items (send st) @ ?pg = take (p * P) corpus"
    by (simp add: items send_def)
  have pg: "page (send st) = p" by (simp add: send_def p(1))
  have tot: "(if p = 1 then tc else total_count (send st)) = int ?T"
    using r(3) total p(2) by (auto simp: send_def)
  have cond: "(min (int ?T) max_results \<le> int (length (take (p * P) corpus)))
              \<longleftrightarrow> (min ?T (nat max_results) \<le> p * P)"
    by (auto simp: max_results_def)
  show ?thesis
    unfolding p(1) r(1) request_step_page [OF r(2) ne] pg tot app cond
    by (simp add: send_def p(1))
qed


lemma page_events_Cons:
  "p < k \<Longrightarrow> concat (map (\<lambda>q. [Request q, Sleep 1]) [p..<k]) @ [Request k]
     = [Request p, Sleep 1] @ concat (map (\<lambda>q. [Request q, Sleep 1]) [Suc p..<k]) @ [Request k]"
  by (simp add: upt_conv_Cons)

lemma paging_loop:
  assumes ep: "serves_pages ep corpus P" and P: "0 < P"
    and k: "k = (min (length corpus) (nat max_results) + P - 1) div P"
  shows "page st = p \<Longrightarrow> 1 \<le> p \<Longrightarrow> p \<le> k \<Longrightarrow>
         all_items st = take ((p - 1) * P) corpus \<Longrightarrow>
         (1 < p \<longrightarrow> total_count st = int (length corpus)) \<Longrightarrow>
         request_loop ep st =
           Some \<lparr>all_items = take (k * P) corpus, total_count = int (length corpus), page = k,
                 clock = clock st + int (k - p), calls = calls st + (k - p) + 1,
                 trace = trace st @ concat (map (\<lambda>q. [Request q, Sleep 1]) [p..<k]) @ [Request k]\<rparr>"
proof (induction "k - p" arbitrary: st p)
  case 0
  then have pk: "p = k" by simp
  have lt: "(p - 1) * P < min (length corpus) (nat max_results)"
    using ceil_div_le [OF P "0.prems"(2)] "0.prems"(3) k by simp
  have ge: "min (length corpus) (nat max_results) \<le> p * P"
    using ceil_div_ge [OF P, of "min (length corpus) (nat max_results)" p] k pk by simp
  have step: "request_step (ep (calls st) (clock st) (page st)) (send st) =
      Stop (st\<lparr>total_count := int (length corpus), all_items := take (p * P) corpus,
                calls := Suc (calls st), trace := trace st @ [Request p]\<rparr>)"
    using page_step [OF ep P "0.prems"(1,2) lt "0.prems"(4,5)] ge by simp
  have "request_loop ep st =
      Some (st\<lparr>total_count := int (length corpus), all_items := take (p * P) corpus,
                calls := Suc (calls st), trace := trace st @ [Request p]\<rparr>)"
    by (subst request_loop.simps) (simp only: step outcome.case)
  then show ?case using "0.prems"(1) pk by (cases st) simp
next
  case (Suc n)
  then have pk: "p < k" by simp
  have lt: "(p - 1) * P < min (length corpus) (nat max_results)"
    using ceil_div_le [OF P Suc.prems(2)] Suc.prems(3) k by simp
  have nge: "\<not> min (length corpus) (nat max_results) \<le> p * P"
    using ceil_div_ge [OF P, of "min (length corpus) (nat max_results)" p] k pk by simp
  let ?st = "st\<lparr>total_count := int (length corpus), all_items := take (p * P) corpus,
                 page := Suc p, clock := clock st + 1, calls := Suc (calls st),
                 trace := trace st @ [Request p, Sleep 1]\<rparr>"
  have "request_step (ep (calls st) (clock st) (page st)) (send st) = Again ?st"
    using page_step [OF ep P Suc.prems(1,2) lt Suc.prems(4,5)] nge by simp
  then have step: "request_loop ep st = request_loop ep ?st"
    by (subst request_loop.simps) (simp only: outcome.case)
  have "request_loop ep ?st =
          Some \<lparr>all_items = take (k * P) corpus, total_count = int (length corpus), page = k,
                clock = clock ?st + int (k - Suc p), calls = calls ?st + (k - Suc p) + 1,
                trace = trace ?st @ concat (map (\<lambda>q. [Request q, Sleep 1]) [Suc p..<k]) @
                          [Request k]\<rparr>"
    using Suc.hyps(2) pk by (intro Suc.hyps(1)) simp_all
  then show ?case unfolding step using pk by (simp add: page_events_Cons)
qed


lemma serves_pages_paged_endpoint: "serves_pages (paged_endpoint corpus P) corpus P"
  by (simp add: serves_pages_def paged_endpoint_def header_or_0_def)

lemma paged_run:
  assumes ep: "serves_pages ep corpus P" and P: "0 < P" and ne: "corpus \<noteq> []"
    and k: "k = (min (length corpus) (nat max_results) + P - 1) div P"
  shows "run_request ep now =
           Some \<lparr>all_items = take (k * P) corpus, total_count = int (length corpus), page = k,
                 clock = now + int (k - 1), calls = k,
                 trace = concat (map (\<lambda>q. [Request q, Sleep 1]) [1..<k]) @ [Request k]\<rparr>"
proof -
  have "0 < min (length corpus) (nat max_results)" using ne by (simp add: max_results_def)
  then have k1: "1 \<le> k" using ceil_div_le [OF P, of 1] k by simp
  show ?thesis unfolding run_request_def
    using paging_loop [OF ep P k, of _ 1] k1 by simp
qed

lemma paged_length:
  fixes P T M :: nat
  assumes P: "0 < P" and M: "M \<le> T" "0 < M" and k: "k = (M + P - 1) div P"
  shows "M \<le> min (k * P) T" and "min (k * P) T < M + P"
    and "T = M \<or> P dvd M \<Longrightarrow> min (k * P) T = M"
proof -
  have ge: "M \<le> k * P" using ceil_div_ge [OF P, of M k] k by simp
  have k1: "1 \<le> k" using ceil_div_le [OF P, of 1 M] M(2) k by simp
  have lt: "(k - 1) * P < M" using ceil_div_le [OF P k1, of M] k by simp
  have kP: "k * P = (k - 1) * P + P" using k1 by (cases k) simp_all
  show "M \<le> min (k * P) T" using ge M(1) by simp
  show "min (k * P) T < M + P" using lt kP by simp
  show "min (k * P) T = M" if "T = M \<or> P dvd M"
    using that
  proof
    assume "T = M"
    then show ?thesis using ge by simp
  next
    assume d: "P dvd M"
    have "P dvd k * P - M" using d by (simp add: dvd_diff_nat)
    moreover have "k * P - M < P" using lt kP P by linarith
    ultimately have "k * P - M = 0" using nat_dvd_not_less by blast
    then show ?thesis using ge M(1) by simp
  qed
qed

text \<open>
  C5, as the code has it. Take an endpoint over a corpus of \<open>T > 0\<close> items that reports
  \<open>T\<close> with its first page, serves the corpus in pages of \<open>P > 0\<close> items (the last one may
  be shorter) and always leaves quota. With \<open>M = min(T, max_results)\<close> and
  \<open>k = ceil(M / P)\<close>, a call of \<open>_make_request\<close> returns; it sends exactly \<open>k\<close> requests, for
  the pages 1 to \<open>k\<close> in order with a second of sleep between them; it returns the items of
  these pages in the order fetched, that is the first \<open>k * P\<close> items of the corpus, and
  the total \<open>T\<close>. The number of items returned is at least \<open>M\<close> and below \<open>M + P\<close>; it is
  exactly \<open>M\<close> when \<open>T \<le> max_results\<close> or \<open>P\<close> divides \<open>max_results\<close>, as \<open>per_page = 100\<close>
  does.
\<close>

theorem pagination_result:
  assumes "serves_pages ep corpus P" and "0 < P" and "corpus \<noteq> []"
    and "T = length corpus" and "M = min T (nat max_results)"
    and "k = (M + P - 1) div P"
  shows "\<exists>st. run_request ep now = Some st \<and> calls st = k \<and>
           trace st = concat (map (\<lambda>q. [Request q, Sleep 1]) [1..<k]) @ [Request k] \<and>
           make_request ep now = Some (take (k * P) corpus, int T) \<and>
           M \<le> length (take (k * P) corpus) \<and> length (take (k * P) corpus) < M + P \<and>
           (T \<le> nat max_results \<or> P dvd nat max_results \<or> P = per_page \<longrightarrow>
              length (take (k * P) corpus) = M)"
proof -
  have k: "k = (min (length corpus) (nat max_results) + P - 1) div P" using assms(4-6) by simp
  note run = paged_run [OF assms(1-3) k, of now]
  have M: "M \<le> T" "0 < M" using assms(3-5) by (simp_all add: max_results_def)
  note len = paged_length [OF assms(2) M assms(6)]
  have pp: "per_page dvd nat max_results" by (simp add: per_page_def max_results_def)
  have "T = M \<or> P dvd M"
    if "T \<le> nat max_results \<or> P dvd nat max_results \<or> P = per_page"
    using that assms(5) pp by (auto simp: min_def)
  then have "length (take (k * P) corpus) = M"
    if "T \<le> nat max_results \<or> P dvd nat max_results \<or> P = per_page"
    using that len(3) assms(4) by simp
  then show ?thesis using run len(1,2) assms(4) by (simp add: make_request_def)
qed

theorem pagination_result_witness:
  "make_request (paged_endpoint [10, 20, 30, 40, 50, 60, 70 :: nat] 3) 0
   = Some ([10, 20, 30, 40, 50, 60, 70], 7) \<and>
   map_option calls (run_request (paged_endpoint [10, 20, 30, 40, 50, 60, 70 :: nat] 3) 0) = Some 3"
proof -
  let ?c = "[10, 20, 30, 40, 50, 60, 70 :: nat]"
  have k: "(3::nat) = (min 7 (nat max_results) + 3 - 1) div 3" by (simp add: max_results_def)
  from pagination_result [OF serves_pages_paged_endpoint, of 3 ?c 7 7 3 0] k
  show ?thesis by (auto simp: max_results_def)
qed

text \<open>
  C5 as stated fails: the loop stops once the count has reached the bound and keeps the
  whole last page. With 2500 items in pages of 99 it fetches 11 pages and returns 1089
  items, not 1000.
\<close>

theorem pagination_overshoot_counterexample:
  "map_option (map_prod length id) (make_request (paged_endpoint (replicate 2500 ()) 99) 0)
     = Some (1089, 2500) \<and>
   map_option calls (run_request (paged_endpoint (replicate 2500 ()) 99) 0) = Some 11 \<and>
   min 2500 max_results = 1000"
proof -
  have k: "(11::nat) = (min (length (replicate 2500 ())) (nat max_results) + 99 - 1) div 99"
    by (simp add: max_results_def)
  have "run_request (paged_endpoint (replicate 2500 ()) 99) 0 =
          Some \<lparr>all_items = take (11 * 99) (replicate 2500 ()),
                total_count = int (length (replicate 2500 ())), page = 11,
                clock = 0 + int (11 - 1), calls = 11,
                trace = concat (map (\<lambda>q. [Request q, Sleep 1]) [1..<11]) @ [Request 11]\<rparr>"
    by (rule paged_run [OF serves_pages_paged_endpoint _ _ k]) simp_all
  then show ?thesis by (simp add: make_request_def max_results_def)
qed

end
